theory Spec2Isabelle
  imports Complex_Main "HOL-Library.Word" "HOL-Library.Monad_Syntax"
begin

section \<open>Shortest paths on weighted graphs: the model of graph\_shortest\_path.pyx\<close>

subsection \<open>Distances\<close>

text \<open>
  \<open>DTYPE_t\<close> is the source's float64. The model keeps the values the algorithms
  produce on finite input: exact rationals (every finite double is one) and the
  positive infinity that the Floyd-Warshall routine uses as its sentinel. Rounding,
  NaN and negative infinity are not modelled.
\<close>

datatype DTYPE_t = Fin rat | PInf

instantiation DTYPE_t :: "{zero, plus, linorder}"
begin

definition zero_DTYPE_t :: DTYPE_t where
  "zero_DTYPE_t = Fin 0"

fun plus_DTYPE_t :: "DTYPE_t \<Rightarrow> DTYPE_t \<Rightarrow> DTYPE_t" where
  "plus_DTYPE_t (Fin a) (Fin b) = Fin (a + b)"
| "plus_DTYPE_t _ _ = PInf"

fun less_DTYPE_t :: "DTYPE_t \<Rightarrow> DTYPE_t \<Rightarrow> bool" where
  "less_DTYPE_t (Fin a) (Fin b) = (a < b)"
| "less_DTYPE_t (Fin a) PInf = True"
| "less_DTYPE_t PInf _ = False"

fun less_eq_DTYPE_t :: "DTYPE_t \<Rightarrow> DTYPE_t \<Rightarrow> bool" where
  "less_eq_DTYPE_t (Fin a) (Fin b) = (a \<le> b)"
| "less_eq_DTYPE_t _ PInf = True"
| "less_eq_DTYPE_t PInf (Fin b) = False"

instance
proof
  fix x y z :: DTYPE_t
  show "(x < y) = (x \<le> y \<and> \<not> y \<le> x)"
    by (cases x; cases y) auto
  show "x \<le> x"
    by (cases x) auto
  show "x \<le> y \<Longrightarrow> y \<le> z \<Longrightarrow> x \<le> z"
    by (cases x; cases y; cases z) auto
  show "x \<le> y \<Longrightarrow> y \<le> x \<Longrightarrow> x = y"
    by (cases x; cases y) auto
  show "x \<le> y \<or> y \<le> x"
    by (cases x; cases y) auto
qed

end

subsection \<open>The nodes of the Fibonacci heap\<close>

text \<open>
  A \<open>FibonacciNode*\<close> is the position of the node in the array \<open>nodes\<close>
  (\<open>None\<close> is \<open>NULL\<close>); the array is a store from positions to nodes. The
  fields \<open>index\<close> and \<open>state\<close> are unsigned ints that the code only assigns and
  compares; \<open>rank\<close> is incremented and decremented and keeps its 32-bit wrap-around.
\<close>

record FibonacciNode =
  index :: nat
  rank :: "32 word"
  state :: nat
  val :: DTYPE_t
  parent :: "nat option"
  left_sibling :: "nat option"
  right_sibling :: "nat option"
  children :: "nat option"

type_synonym store = "nat \<Rightarrow> FibonacciNode"

definition initialize_node :: "store \<Rightarrow> nat \<Rightarrow> nat \<Rightarrow> DTYPE_t \<Rightarrow> store" where
  "initialize_node s node idx v =
     s(node := \<lparr>index = idx, rank = 0, state = 0, val = v,
                parent = None, left_sibling = None, right_sibling = None,
                children = None\<rparr>)"

text \<open>
  The two sibling walks are while loops over pointers; on a cyclic chain they do not
  return, which is the value \<open>None\<close>.
\<close>

partial_function (option) rightmost_sibling :: "store \<Rightarrow> nat \<Rightarrow> nat option" where
  "rightmost_sibling s temp =
     (case right_sibling (s temp) of
        None \<Rightarrow> Some temp
      | Some r \<Rightarrow> rightmost_sibling s r)"

declare rightmost_sibling.simps [code]

partial_function (option) leftmost_sibling :: "store \<Rightarrow> nat \<Rightarrow> nat option" where
  "leftmost_sibling s temp =
     (case left_sibling (s temp) of
        None \<Rightarrow> Some temp
      | Some l \<Rightarrow> leftmost_sibling s l)"

declare leftmost_sibling.simps [code]

definition add_sibling :: "store \<Rightarrow> nat \<Rightarrow> nat \<Rightarrow> store option" where
  "add_sibling s node new_sibling =
     do {
       temp \<leftarrow> rightmost_sibling s node;
       let s1 = s(temp := (s temp)\<lparr>right_sibling := Some new_sibling\<rparr>);
       let s2 = s1(new_sibling := (s1 new_sibling)\<lparr>left_sibling := Some temp\<rparr>);
       let s3 = s2(new_sibling := (s2 new_sibling)\<lparr>right_sibling := None\<rparr>);
       let s4 = s3(new_sibling := (s3 new_sibling)\<lparr>parent := parent (s3 node)\<rparr>);
       Some (case parent (s4 new_sibling) of
               None \<Rightarrow> s4
             | Some p \<Rightarrow> s4(p := (s4 p)\<lparr>rank := rank (s4 p) + 1\<rparr>))
     }"

definition add_child :: "store \<Rightarrow> nat \<Rightarrow> nat \<Rightarrow> store option" where
  "add_child s node new_child =
     (let s1 = s(new_child := (s new_child)\<lparr>parent := Some node\<rparr>) in
      case children (s1 node) of
        Some c \<Rightarrow> add_sibling s1 c new_child
      | None \<Rightarrow>
          (let s2 = s1(node := (s1 node)\<lparr>children := Some new_child\<rparr>);
               s3 = s2(new_child := (s2 new_child)\<lparr>right_sibling := None\<rparr>);
               s4 = s3(new_child := (s3 new_child)\<lparr>left_sibling := None\<rparr>)
           in Some (s4(node := (s4 node)\<lparr>rank := 1\<rparr>))))"

definition remove :: "store \<Rightarrow> nat \<Rightarrow> store" where
  "remove s node =
     (let s1 = (case parent (s node) of
                  None \<Rightarrow> s
                | Some p \<Rightarrow>
                    (let t = s(p := (s p)\<lparr>rank := rank (s p) - 1\<rparr>) in
                     case left_sibling (t node) of
                       Some l \<Rightarrow> t(p := (t p)\<lparr>children := Some l\<rparr>)
                     | None \<Rightarrow>
                         (case right_sibling (t node) of
                            Some r \<Rightarrow> t(p := (t p)\<lparr>children := Some r\<rparr>)
                          | None \<Rightarrow> t(p := (t p)\<lparr>children := None\<rparr>))));
          s2 = (case left_sibling (s1 node) of
                  None \<Rightarrow> s1
                | Some l \<Rightarrow> s1(l := (s1 l)\<lparr>right_sibling := right_sibling (s1 node)\<rparr>));
          s3 = (case right_sibling (s2 node) of
                  None \<Rightarrow> s2
                | Some r \<Rightarrow> s2(r := (s2 r)\<lparr>left_sibling := left_sibling (s2 node)\<rparr>));
          s4 = s3(node := (s3 node)\<lparr>left_sibling := None\<rparr>);
          s5 = s4(node := (s4 node)\<lparr>right_sibling := None\<rparr>)
      in s5(node := (s5 node)\<lparr>parent := None\<rparr>))"

subsection \<open>The heap\<close>

text \<open>
  \<open>roots_by_rank\<close> is the table \<open>pFibonacciNode[100]\<close>. The model keeps it as a
  function on positions, of which 0 to 99 are the table. \<open>link\<close> reads and writes it
  at \<open>node.rank\<close> without a check: at a rank of 100 or more the access is outside the
  table and outside the C language's defined behaviour, and \<open>link\<close> returns
  \<open>None\<close>, like a read of an array outside its bounds. \<open>remove_min\<close> clears the
  positions 0 to 99.
\<close>

record FibonacciHeap =
  min_node :: "nat option"
  roots_by_rank :: "nat \<Rightarrow> nat option"

type_synonym memory = "store \<times> FibonacciHeap"

definition insert_node :: "memory \<Rightarrow> nat \<Rightarrow> memory option" where
  "insert_node m node =
     (case m of (s, heap) \<Rightarrow>
        (case min_node heap of
           Some mn \<Rightarrow>
             do {
               s1 \<leftarrow> add_sibling s mn node;
               Some (if val (s1 node) < val (s1 mn)
                     then (s1, heap\<lparr>min_node := Some node\<rparr>)
                     else (s1, heap))
             }
         | None \<Rightarrow> Some (s, heap\<lparr>min_node := Some node\<rparr>)))"

definition decrease_val :: "memory \<Rightarrow> nat \<Rightarrow> DTYPE_t \<Rightarrow> memory option" where
  "decrease_val m node newval =
     (case m of (s, heap) \<Rightarrow>
        (let s1 = s(node := (s node)\<lparr>val := newval\<rparr>) in
         case parent (s1 node) of
           None \<Rightarrow> Some (s1, heap)
         | Some p \<Rightarrow>
             if val (s1 p) \<ge> newval
             then insert_node (remove s1 node, heap) node
             else Some (s1, heap)))"

partial_function (option) link :: "memory \<Rightarrow> nat \<Rightarrow> memory option" where
  "link m node =
     (case m of (s, heap) \<Rightarrow>
        if 100 \<le> unat (rank (s node)) then None
        else
        (case roots_by_rank heap (unat (rank (s node))) of
           None \<Rightarrow>
             Some (s, heap\<lparr>roots_by_rank :=
                            (roots_by_rank heap)(unat (rank (s node)) := Some node)\<rparr>)
         | Some linknode \<Rightarrow>
             (let heap1 = heap\<lparr>roots_by_rank :=
                                 (roots_by_rank heap)(unat (rank (s node)) := None)\<rparr>
              in if val (s node) < val (s linknode) \<or> min_node heap1 = Some node
                 then do {
                        s2 \<leftarrow> add_child (remove s linknode) node linknode;
                        link (s2, heap1) node
                      }
                 else do {
                        s2 \<leftarrow> add_child (remove s node) linknode node;
                        link (s2, heap1) linknode
                      })))"

declare link.simps [code]

text \<open>The first loop of \<open>remove_min\<close>: every child of the minimum becomes a root.\<close>

partial_function (option) promote_children :: "store \<Rightarrow> nat \<Rightarrow> nat option \<Rightarrow> store option"
  where
  "promote_children s mn temp =
     (case temp of
        None \<Rightarrow> Some s
      | Some t \<Rightarrow>
          (let temp_right = right_sibling (s t) in
           do {
             s1 \<leftarrow> add_sibling (remove s t) mn t;
             promote_children s1 mn temp_right
           }))"

declare promote_children.simps [code]

text \<open>The second loop of \<open>remove_min\<close>: the walk over the roots that re-links them.\<close>

partial_function (option) relink :: "memory \<Rightarrow> nat option \<Rightarrow> memory option" where
  "relink m temp =
     (case temp of
        None \<Rightarrow> Some m
      | Some t \<Rightarrow>
          (case m of (s, heap) \<Rightarrow>
             (case min_node heap of
                None \<Rightarrow> None
              | Some mn \<Rightarrow>
                  (let heap1 = (if val (s t) < val (s mn)
                                then heap\<lparr>min_node := Some t\<rparr> else heap);
                       temp_right = right_sibling (s t)
                   in do {
                        m1 \<leftarrow> link (s, heap1) t;
                        relink m1 temp_right
                      }))))"

declare relink.simps [code]

text \<open>
  The loop \<open>for i from 0 <= i < 100: heap.roots_by_rank[i] = NULL\<close> of
  \<open>remove_min\<close>.
\<close>

definition clear_roots_by_rank :: "(nat \<Rightarrow> nat option) \<Rightarrow> nat \<Rightarrow> nat option" where
  "clear_roots_by_rank table = fold (\<lambda>i table. table(i := None)) [0..<100] table"

text \<open>
  The end of \<open>remove_min\<close>, from the comment "remove min\_node, and point heap to
  the new min": \<open>temp\<close> is the root chosen to stand in for the minimum.
\<close>

definition remove_min_relink :: "memory \<Rightarrow> nat \<Rightarrow> nat \<Rightarrow> (nat \<times> memory) option" where
  "remove_min_relink m mn temp =
     (case m of (s, heap) \<Rightarrow>
        (let s1 = remove s mn;
             heap1 = heap\<lparr>min_node := Some temp\<rparr>;
             heap2 = heap1\<lparr>roots_by_rank := clear_roots_by_rank (roots_by_rank heap1)\<rparr>
         in do {
              m1 \<leftarrow> relink (s1, heap2) (Some temp);
              Some (mn, m1)
            }))"

definition remove_min :: "memory \<Rightarrow> (nat \<times> memory) option" where
  "remove_min m =
     (case m of (s, heap) \<Rightarrow>
        (case min_node heap of
           None \<Rightarrow> None
         | Some mn \<Rightarrow>
             do {
               s1 \<leftarrow> (case children (s mn) of
                        None \<Rightarrow> Some s
                      | Some c \<Rightarrow>
                          do {
                            temp \<leftarrow> leftmost_sibling s c;
                            s' \<leftarrow> promote_children s mn (Some temp);
                            Some (s'(mn := (s' mn)\<lparr>children := None\<rparr>))
                          });
               temp \<leftarrow> leftmost_sibling s1 mn;
               if temp = mn
               then (case right_sibling (s1 mn) of
                       Some r \<Rightarrow> remove_min_relink (s1, heap) mn r
                     | None \<Rightarrow> Some (mn, (s1, heap\<lparr>min_node := None\<rparr>)))
               else remove_min_relink (s1, heap) mn temp
             }))"

subsection \<open>Matrices\<close>

text \<open>
  A dense array is the list of its rows. A sparse matrix is the compressed-row triple
  \<open>data\<close>, \<open>indices\<close>, \<open>indptr\<close> with its \<open>shape\<close>; \<open>ITYPE_t\<close> positions are natural numbers.
\<close>

type_synonym ndarray = "DTYPE_t list list"

record csr =
  csr_data :: "DTYPE_t list"
  csr_indices :: "nat list"
  csr_indptr :: "nat list"
  csr_shape :: "nat \<times> nat"

text \<open>
  A read of a C array at a position outside it is undefined behaviour
  (\<open>boundscheck(False)\<close>); the searches below return \<open>None\<close> there.
\<close>

definition read_at :: "'a list \<Rightarrow> nat \<Rightarrow> 'a option" where
  "read_at xs i = (if i < length xs then Some (xs ! i) else None)"

definition graph_set :: "ndarray \<Rightarrow> nat \<Rightarrow> nat \<Rightarrow> DTYPE_t \<Rightarrow> ndarray option" where
  "graph_set g i j v =
     (if i < length g \<and> j < length (g ! i) then Some (g[i := (g ! i)[j := v]]) else None)"

text \<open>
  Modelled from the spec: the conversions between the dense and the compressed-row
  form are scipy.sparse code that is not part of the source file. The glossary describes
  the compressed row form as "storing, per row, only nonzero entries as parallel (value,
  column-index) pairs, with a row-pointer array delimiting each row's slice"; section 3
  describes the transposed view as the triple of "edges into row i".
\<close>

definition row_entries :: "DTYPE_t list \<Rightarrow> (DTYPE_t \<times> nat) list" where
  "row_entries r = filter (\<lambda>(x, j). x \<noteq> 0) (zip r [0..<length r])"

fun row_pointers :: "nat \<Rightarrow> (DTYPE_t \<times> nat) list list \<Rightarrow> nat list" where
  "row_pointers k [] = [k]"
| "row_pointers k (r # rs) = k # row_pointers (k + length r) rs"

definition csr_of_rows :: "(DTYPE_t \<times> nat) list list \<Rightarrow> nat \<times> nat \<Rightarrow> csr" where
  "csr_of_rows rows sh =
     \<lparr>csr_data = map fst (concat rows), csr_indices = map snd (concat rows),
      csr_indptr = row_pointers 0 rows, csr_shape = sh\<rparr>"

definition csr_matrix :: "ndarray \<Rightarrow> csr" where
  "csr_matrix m =
     csr_of_rows (map row_entries m) (length m, (case m of [] \<Rightarrow> 0 | r # _ \<Rightarrow> length r))"

definition csr_row :: "csr \<Rightarrow> nat \<Rightarrow> (DTYPE_t \<times> nat) list" where
  "csr_row c i =
     map (\<lambda>k. (csr_data c ! k, csr_indices c ! k)) [csr_indptr c ! i ..< csr_indptr c ! (i + 1)]"

definition csr_get :: "csr \<Rightarrow> nat \<Rightarrow> nat \<Rightarrow> DTYPE_t" where
  "csr_get c i j = fold (\<lambda>(x, k) acc. if k = j then acc + x else acc) (csr_row c i) 0"

definition toarray :: "csr \<Rightarrow> ndarray" where
  "toarray c =
     map (\<lambda>i. map (\<lambda>j. csr_get c i j) [0..<snd (csr_shape c)]) [0..<fst (csr_shape c)]"

definition csr_transpose :: "csr \<Rightarrow> csr" where
  "csr_transpose c =
     csr_of_rows
       (map (\<lambda>j. concat (map (\<lambda>i. map (\<lambda>(x, k). (x, i))
                                      (filter (\<lambda>(x, k). k = j) (csr_row c i)))
                               [0..<fst (csr_shape c)]))
            [0..<snd (csr_shape c)])
       (snd (csr_shape c), fst (csr_shape c))"

subsection \<open>Python objects and errors\<close>

text \<open>
  The entry points receive a sparse matrix or a dense numpy array. A dense array is an
  object with an identity: the address of its buffer in the store of arrays, and the two
  properties that \<open>np.asarray(..., dtype=DTYPE, order='C')\<close> looks at. numpy's
  \<open>asarray\<close> returns its argument when it is already a C-ordered float64 array and
  a fresh array otherwise; \<open>np.array\<close> and \<open>toarray\<close> always return a fresh
  array.
\<close>

record array_object =
  buffer :: nat
  c_ordered :: bool
  float64 :: bool

datatype dist_matrix = Sparse csr | Dense array_object

type_synonym np_store = "ndarray list"

datatype error = ValueError string

definition alloc :: "np_store \<Rightarrow> ndarray \<Rightarrow> np_store \<times> nat" where
  "alloc st m = (st @ [m], length st)"

definition np_array :: "np_store \<Rightarrow> array_object \<Rightarrow> np_store \<times> nat" where
  "np_array st a = alloc st (st ! buffer a)"

definition np_asarray :: "np_store \<Rightarrow> array_object \<Rightarrow> np_store \<times> nat" where
  "np_asarray st a =
     (if c_ordered a \<and> float64 a then (st, buffer a) else alloc st (st ! buffer a))"

definition is_square :: "ndarray \<Rightarrow> bool" where
  "is_square g = list_all (\<lambda>r. length r = length g) g"

subsection \<open>Floyd-Warshall\<close>

definition zeros_to_infinity :: "ndarray \<Rightarrow> ndarray" where
  "zeros_to_infinity g = map (map (\<lambda>x. if x = 0 then PInf else x)) g"

definition zero_diagonal :: "ndarray \<Rightarrow> ndarray" where
  "zero_diagonal g = fold (\<lambda>i g. g[i := (g ! i)[i := 0]]) [0..<length g] g"

definition symmetrize_step :: "nat \<Rightarrow> nat \<Rightarrow> ndarray \<Rightarrow> ndarray" where
  "symmetrize_step i j g =
     (if g ! j ! i \<le> g ! i ! j
      then g[i := (g ! i)[j := g ! j ! i]]
      else g[j := (g ! j)[i := g ! i ! j]])"

definition symmetrize :: "ndarray \<Rightarrow> ndarray" where
  "symmetrize g =
     fold (\<lambda>i g. fold (symmetrize_step i) [i + 1..<length g] g) [0..<length g] g"

definition relax_step :: "nat \<Rightarrow> nat \<Rightarrow> nat \<Rightarrow> ndarray \<Rightarrow> ndarray" where
  "relax_step k i j g =
     (let sum_ijk = g ! i ! k + g ! k ! j
      in if sum_ijk < g ! i ! j then g[i := (g ! i)[j := sum_ijk]] else g)"

definition relax_row :: "nat \<Rightarrow> nat \<Rightarrow> ndarray \<Rightarrow> ndarray" where
  "relax_row k i g =
     (if g ! i ! k = PInf then g else fold (relax_step k i) [0..<length g] g)"

definition relax_all :: "ndarray \<Rightarrow> ndarray" where
  "relax_all g =
     fold (\<lambda>k g. fold (relax_row k) [0..<length g] g) [0..<length g] g"

definition infinity_to_zeros :: "ndarray \<Rightarrow> ndarray" where
  "infinity_to_zeros g = map (map (\<lambda>x. if x = PInf then 0 else x)) g"

definition cdef_floyd_warshall :: "ndarray \<Rightarrow> bool \<Rightarrow> ndarray" where
  "cdef_floyd_warshall graph directed =
     (let g1 = zeros_to_infinity graph;
          g2 = zero_diagonal g1;
          g3 = (if \<not> directed then symmetrize g2 else g2);
          g4 = relax_all g3
      in infinity_to_zeros g4)"

definition floyd_warshall ::
  "np_store \<Rightarrow> dist_matrix \<Rightarrow> bool \<Rightarrow> bool \<Rightarrow> error + np_store \<times> nat" where
  "floyd_warshall st dm directed overwrite =
     (case (case dm of
              Sparse c \<Rightarrow> alloc st (toarray c)
            | Dense a \<Rightarrow> if overwrite then np_asarray st a else np_array st a)
      of (st1, graph) \<Rightarrow>
        if \<not> is_square (st1 ! graph)
        then Inl (ValueError ''dist_matrix must have shape (N, N)'')
        else Inr (st1[graph := cdef_floyd_warshall (st1 ! graph) directed], graph))"

subsection \<open>Dijkstra's algorithm on the heap\<close>

text \<open>
  The body of the loops over the edges of \<open>v\<close>, which the source writes out three
  times: the neighbour at position \<open>i\<close> of the arrays is inserted, decreased or left
  alone. \<open>N\<close> is the length of the array of nodes.
\<close>

definition scan_edge ::
  "nat list \<Rightarrow> DTYPE_t list \<Rightarrow> nat \<Rightarrow> nat \<Rightarrow> memory \<Rightarrow> nat \<Rightarrow> memory option" where
  "scan_edge neighbors distances N v m i =
     (case m of (s, heap) \<Rightarrow>
        do {
          current_neighbor \<leftarrow> read_at neighbors i;
          if current_neighbor \<ge> N then None
          else if state (s current_neighbor) \<noteq> 2
          then do {
                 dist \<leftarrow> read_at distances i;
                 if state (s current_neighbor) = 0
                 then (let s1 = s(current_neighbor := (s current_neighbor)\<lparr>state := 1\<rparr>);
                           s2 = s1(current_neighbor :=
                                     (s1 current_neighbor)\<lparr>val := val (s1 v) + dist\<rparr>)
                       in insert_node (s2, heap) current_neighbor)
                 else if val (s current_neighbor) > val (s v) + dist
                 then decrease_val (s, heap) current_neighbor (val (s v) + dist)
                 else Some m
               }
          else Some m
        })"

fun scan_edges ::
  "nat list \<Rightarrow> DTYPE_t list \<Rightarrow> nat \<Rightarrow> nat \<Rightarrow> nat list \<Rightarrow> memory \<Rightarrow> memory option" where
  "scan_edges neighbors distances N v [] m = Some m"
| "scan_edges neighbors distances N v (i # is) m =
     do {
       m1 \<leftarrow> scan_edge neighbors distances N v m i;
       scan_edges neighbors distances N v is m1
     }"

definition scan_row ::
  "nat list \<Rightarrow> DTYPE_t list \<Rightarrow> nat list \<Rightarrow> nat \<Rightarrow> nat \<Rightarrow> memory \<Rightarrow> memory option" where
  "scan_row neighbors distances indptr N v m =
     do {
       first \<leftarrow> read_at indptr (index (fst m v));
       last \<leftarrow> read_at indptr (index (fst m v) + 1);
       scan_edges neighbors distances N v [first..<last] m
     }"

text \<open>
  The two loops that prepare the nodes for a search: the full initialisation of the
  directed search (and of \<open>_dijkstra\<close>), and the abbreviated one of the undirected
  search, which sets \<open>state\<close> and \<open>val\<close> only.
\<close>

definition initialize_nodes :: "nat \<Rightarrow> store \<Rightarrow> store" where
  "initialize_nodes N s = fold (\<lambda>i s. initialize_node s i i 0) [0..<N] s"

definition reset_nodes :: "nat \<Rightarrow> store \<Rightarrow> store" where
  "reset_nodes N s =
     fold (\<lambda>i s. (let t = s(i := (s i)\<lparr>state := 0\<rparr>)
                   in t(i := (t i)\<lparr>val := 0\<rparr>))) [0..<N] s"

partial_function (option) directed_loop ::
  "nat \<Rightarrow> nat list \<Rightarrow> DTYPE_t list \<Rightarrow> nat list \<Rightarrow> nat \<Rightarrow> memory \<times> ndarray
     \<Rightarrow> (memory \<times> ndarray) option" where
  "directed_loop i_node neighbors distances indptr N mg =
     (case mg of (m, graph) \<Rightarrow>
        (case min_node (snd m) of
           None \<Rightarrow> Some mg
         | Some _ \<Rightarrow>
             do {
               (v, (s, heap)) \<leftarrow> remove_min m;
               let s1 = s(v := (s v)\<lparr>state := 2\<rparr>);
               (s2, heap2) \<leftarrow> scan_row neighbors distances indptr N v (s1, heap);
               graph1 \<leftarrow> graph_set graph i_node (index (s2 v)) (val (s2 v));
               directed_loop i_node neighbors distances indptr N ((s2, heap2), graph1)
             }))"

declare directed_loop.simps [code]

definition dijkstra_directed_one_row ::
  "nat \<Rightarrow> nat list \<Rightarrow> DTYPE_t list \<Rightarrow> nat list \<Rightarrow> nat \<Rightarrow> memory \<times> ndarray
     \<Rightarrow> (memory \<times> ndarray) option" where
  "dijkstra_directed_one_row i_node neighbors distances indptr N mg =
     (case mg of ((s, heap), graph) \<Rightarrow>
        (let s1 = initialize_nodes N s;
             heap1 = heap\<lparr>min_node := None\<rparr>
         in if i_node \<ge> N then None
            else do {
                   m1 \<leftarrow> insert_node (s1, heap1) i_node;
                   directed_loop i_node neighbors distances indptr N (m1, graph)
                 }))"

partial_function (option) undirected_loop ::
  "nat \<Rightarrow> nat list \<Rightarrow> DTYPE_t list \<Rightarrow> nat list \<Rightarrow> nat list \<Rightarrow> DTYPE_t list \<Rightarrow> nat list
     \<Rightarrow> nat \<Rightarrow> memory \<times> ndarray \<Rightarrow> (memory \<times> ndarray) option" where
  "undirected_loop i_node neighbors1 distances1 indptr1 neighbors2 distances2 indptr2 N mg =
     (case mg of (m, graph) \<Rightarrow>
        (case min_node (snd m) of
           None \<Rightarrow> Some mg
         | Some _ \<Rightarrow>
             do {
               (v, (s, heap)) \<leftarrow> remove_min m;
               let s1 = s(v := (s v)\<lparr>state := 2\<rparr>);
               m2 \<leftarrow> scan_row neighbors1 distances1 indptr1 N v (s1, heap);
               (s3, heap3) \<leftarrow> scan_row neighbors2 distances2 indptr2 N v m2;
               graph1 \<leftarrow> graph_set graph i_node (index (s3 v)) (val (s3 v));
               undirected_loop i_node neighbors1 distances1 indptr1
                 neighbors2 distances2 indptr2 N ((s3, heap3), graph1)
             }))"

declare undirected_loop.simps [code]

definition dijkstra_one_row ::
  "nat \<Rightarrow> nat list \<Rightarrow> DTYPE_t list \<Rightarrow> nat list \<Rightarrow> nat list \<Rightarrow> DTYPE_t list \<Rightarrow> nat list
     \<Rightarrow> nat \<Rightarrow> memory \<times> ndarray \<Rightarrow> (memory \<times> ndarray) option" where
  "dijkstra_one_row i_node neighbors1 distances1 indptr1 neighbors2 distances2 indptr2 N mg =
     (case mg of ((s, heap), graph) \<Rightarrow>
        (let s1 = reset_nodes N s
         in if i_node \<ge> N then None
            else do {
                   m1 \<leftarrow> insert_node (s1, heap) i_node;
                   undirected_loop i_node neighbors1 distances1 indptr1
                     neighbors2 distances2 indptr2 N (m1, graph)
                 }))"

text \<open>
  \<open>malloc\<close> returns memory with unspecified contents, and the heap is an
  uninitialised local variable; \<open>_dijkstra\<close> initialises every node and
  \<open>min_node\<close>, and \<open>remove_min\<close> clears \<open>roots_by_rank\<close> before it reads it.
  The model starts from one fixed content.
\<close>

definition malloc_nodes :: store where
  "malloc_nodes = (\<lambda>i. \<lparr>index = 0, rank = 0, state = 0, val = 0,
                          parent = None, left_sibling = None, right_sibling = None,
                          children = None\<rparr>)"

definition local_heap :: FibonacciHeap where
  "local_heap = \<lparr>min_node = None, roots_by_rank = (\<lambda>i. None)\<rparr>"

fun for_each_row ::
  "(nat \<Rightarrow> memory \<times> ndarray \<Rightarrow> (memory \<times> ndarray) option) \<Rightarrow> nat list \<Rightarrow> memory \<times> ndarray
     \<Rightarrow> (memory \<times> ndarray) option" where
  "for_each_row one_row [] mg = Some mg"
| "for_each_row one_row (i_node # rest) mg =
     do {
       mg1 \<leftarrow> one_row i_node mg;
       for_each_row one_row rest mg1
     }"

text \<open>
  \<open>_dijkstra\<close>: \<open>N\<close> is \<open>graph.shape[1]\<close>. Its result here is the memory it
  leaves at \<open>free(nodes)\<close> together with the array it returns.
\<close>

definition cdef_dijkstra ::
  "csr \<Rightarrow> ndarray \<Rightarrow> nat \<Rightarrow> nat list \<Rightarrow> bool \<Rightarrow> (memory \<times> ndarray) option" where
  "cdef_dijkstra dist_matrix graph N compute_ind directed =
     (let distances = csr_data dist_matrix;
          neighbors = csr_indices dist_matrix;
          indptr1 = csr_indptr dist_matrix;
          nodes = initialize_nodes N malloc_nodes;
          heap = local_heap\<lparr>min_node := None\<rparr>
      in if directed
         then for_each_row
                (\<lambda>i_node. dijkstra_directed_one_row i_node neighbors distances indptr1 N)
                compute_ind ((nodes, heap), graph)
         else (let dist_matrix_T = csr_transpose dist_matrix;
                   distances2 = csr_data dist_matrix_T;
                   neighbors2 = csr_indices dist_matrix_T;
                   indptr2 = csr_indptr dist_matrix_T
               in for_each_row
                    (\<lambda>i_node. dijkstra_one_row i_node neighbors distances indptr1
                                 neighbors2 distances2 indptr2 N)
                    compute_ind ((nodes, heap), graph)))"

text \<open>
  \<open>dijkstra\<close>. Of the sparse formats only the compressed-row one is modelled, so the
  branch for a column-compressed argument does not appear; a dense argument is
  converted. The result is \<open>None\<close> when the search does not return.
\<close>

definition dijkstra ::
  "np_store \<Rightarrow> dist_matrix \<Rightarrow> bool \<Rightarrow> nat list option \<Rightarrow> (error + ndarray) option" where
  "dijkstra st dm directed indices_arg =
     (let dist_matrix = (case dm of Sparse c \<Rightarrow> c | Dense a \<Rightarrow> csr_matrix (st ! buffer a))
      in if list_ex (\<lambda>x. x < 0) (csr_data dist_matrix)
         then Some (Inl (ValueError ''Negative distances are not supported''))
         else if fst (csr_shape dist_matrix) \<noteq> snd (csr_shape dist_matrix)
         then Some (Inl (ValueError ''dist_matrix must have shape (N, N)''))
         else (let N = fst (csr_shape dist_matrix);
                   compute_ind = (case indices_arg of None \<Rightarrow> [0..<N] | Some l \<Rightarrow> l);
                   graph = replicate (length compute_ind) (replicate N 0)
               in map_option (\<lambda>(m, g). Inr g)
                    (cdef_dijkstra dist_matrix graph N compute_ind directed)))"

subsection \<open>The dispatcher\<close>

text \<open>
  \<open>graph_shortest_path\<close>. \<open>N * N / 4\<close> is Python's true division of two
  integers, a rational number here. The result is the array that the chosen routine
  returns.
\<close>

definition graph_shortest_path ::
  "np_store \<Rightarrow> dist_matrix \<Rightarrow> bool \<Rightarrow> string \<Rightarrow> bool \<Rightarrow> (error + ndarray) option" where
  "graph_shortest_path st dm directed method_arg overwrite =
     (let dist_matrix = (case dm of Sparse c \<Rightarrow> c | Dense a \<Rightarrow> csr_matrix (st ! buffer a));
          N = fst (csr_shape dist_matrix);
          Nk = length (csr_data dist_matrix);
          method = (if method_arg = ''auto''
                    then (if (of_nat Nk :: rat) < of_nat (N * N) / 4 then ''D'' else ''FW'')
                    else method_arg)
      in if method = ''FW''
         then Some (case floyd_warshall st (Sparse dist_matrix) directed overwrite of
                      Inl e \<Rightarrow> Inl e
                    | Inr (st1, graph) \<Rightarrow> Inr (st1 ! graph))
         else if method = ''D''
         then dijkstra st (Sparse dist_matrix) directed None
         else Some (Inl (ValueError (''unrecognized method '' @ [CHR 0x27] @ method
                                      @ [CHR 0x27]))))"

subsection \<open>Example inputs\<close>

text \<open>
  A directed graph on four vertices where the cheapest way from 0 to 1 is the detour
  0, 3, 2, 1 of length 3, and the undirected graph with the same edges.
\<close>

definition detour_graph :: ndarray where
  "detour_graph =
     [[0, 0, Fin 10, Fin 1],
      [0, 0, 0, 0],
      [0, Fin 1, 0, 0],
      [0, Fin 5, Fin 1, 0]]"

definition symmetric_detour_graph :: ndarray where
  "symmetric_detour_graph =
     [[0, 0, Fin 10, Fin 1],
      [0, 0, Fin 1, Fin 5],
      [Fin 10, Fin 1, 0, Fin 1],
      [Fin 1, Fin 5, Fin 1, 0]]"

definition dense_input :: array_object where
  "dense_input = \<lparr>buffer = 0, c_ordered = True, float64 = True\<rparr>"

definition two_nodes :: store where
  "two_nodes = initialize_node (initialize_node malloc_nodes 0 0 (Fin 5)) 1 1 (Fin 10)"

definition negative_edge :: csr where
  "negative_edge = \<lparr>csr_data = [Fin 2, Fin (- 1)], csr_indices = [1, 0],
                     csr_indptr = [0, 1, 2], csr_shape = (2, 2)\<rparr>"

definition fortran_input :: array_object where
  "fortran_input = \<lparr>buffer = 0, c_ordered = False, float64 = True\<rparr>"




definition star :: csr where
  "star = \<lparr>csr_data = [Fin 1, Fin 2, Fin 3, Fin 4], csr_indices = [1, 2, 3, 4],
            csr_indptr = [0, 4, 4, 4, 4, 4], csr_shape = (5, 5)\<rparr>"

definition star_transposed :: csr where
  "star_transposed = \<lparr>csr_data = [Fin 1, Fin 2, Fin 3, Fin 4], csr_indices = [0, 0, 0, 0],
                       csr_indptr = [0, 0, 1, 2, 3, 4], csr_shape = (5, 5)\<rparr>"


subsection \<open>Predicates on the memory\<close>

text \<open>
  The predicates of the proofs about the heap and the searches: none of them is part of
  the program. A heap is described by the list of its roots and, for every node, the list
  of its children, both in the order of the sibling pointers.
\<close>

text \<open>
  The store after \<open>add_sibling\<close> has put \<open>y\<close> behind the last sibling \<open>t\<close>, under the
  parent \<open>par\<close>.
\<close>

definition appended :: "store \<Rightarrow> nat \<Rightarrow> nat \<Rightarrow> nat option \<Rightarrow> store" where
  "appended s t y par =
     (let s1 = s(t := (s t)\<lparr>right_sibling := Some y\<rparr>);
          s2 = s1(y := (s1 y)\<lparr>left_sibling := Some t, right_sibling := None, parent := par\<rparr>)
      in case par of None \<Rightarrow> s2
         | Some p \<Rightarrow> s2(p := (s2 p)\<lparr>rank := rank (s2 p) + 1\<rparr>))"

text \<open>
  \<open>seg s l xs r\<close>: the sibling pointers link the nodes \<open>xs\<close> in this order, with
  \<open>l\<close> to the left of the first and \<open>r\<close> to the right of the last.
  \<open>sibs s par xs\<close>: \<open>xs\<close> is a whole sibling list, without repetition, of nodes whose
  parent is \<open>par\<close>.
\<close>

fun seg :: "store \<Rightarrow> nat option \<Rightarrow> nat list \<Rightarrow> nat option \<Rightarrow> bool" where
  "seg s l [] r = True"
| "seg s l (x # xs) r =
     (left_sibling (s x) = l
      \<and> right_sibling (s x) = (case xs of [] \<Rightarrow> r | y # _ \<Rightarrow> Some y)
      \<and> seg s (Some x) xs r)"

definition sibs :: "store \<Rightarrow> nat option \<Rightarrow> nat list \<Rightarrow> bool" where
  "sibs s par xs \<longleftrightarrow>
     distinct xs \<and> seg s None xs None \<and> list_all (\<lambda>x. parent (s x) = par) xs"

text \<open>
  A node that has been taken out of its sibling list and is in no other yet.
\<close>

definition floating :: "store \<Rightarrow> nat \<Rightarrow> bool" where
  "floating s x \<longleftrightarrow>
     parent (s x) = None \<and> left_sibling (s x) = None \<and> right_sibling (s x) = None"

text \<open>
  The shape of a heap with the nodes \<open>H\<close>: \<open>rs\<close> is the list of the roots,
  \<open>cs p\<close> the list of the children of \<open>p\<close>, \<open>d\<close> a depth that grows from a parent to
  its children, so that the parent pointers form no cycle, and \<open>fl\<close> the nodes that an
  operation holds between two lists. The rank of a node is the number of its children, and
  its \<open>children\<close> pointer is one of them.
\<close>

definition kids_ok :: "store \<Rightarrow> nat set \<Rightarrow> (nat \<Rightarrow> nat list) \<Rightarrow> nat \<Rightarrow> bool" where
  "kids_ok s H cs p \<longleftrightarrow>
     sibs s (Some p) (cs p) \<and> set (cs p) \<subseteq> H \<and> rank (s p) = of_nat (length (cs p))
     \<and> (children (s p) = None \<longrightarrow> cs p = [])
     \<and> (\<forall>c. children (s p) = Some c \<longrightarrow> c \<in> set (cs p))"

definition up_ok ::
  "store \<Rightarrow> nat set \<Rightarrow> nat list \<Rightarrow> (nat \<Rightarrow> nat list) \<Rightarrow> (nat \<Rightarrow> int) \<Rightarrow> nat set \<Rightarrow> nat \<Rightarrow> bool"
  where
  "up_ok s H rs cs d fl x \<longleftrightarrow>
     (parent (s x) = None \<longrightarrow> x \<in> set rs \<union> fl)
     \<and> (\<forall>p. parent (s x) = Some p \<longrightarrow> p \<in> H \<and> x \<in> set (cs p) \<and> d p < d x)"

definition hinv ::
  "store \<Rightarrow> nat set \<Rightarrow> nat list \<Rightarrow> (nat \<Rightarrow> nat list) \<Rightarrow> (nat \<Rightarrow> int) \<Rightarrow> nat set \<Rightarrow> bool" where
  "hinv s H rs cs d fl \<longleftrightarrow>
     finite H \<and> sibs s None rs \<and> set rs \<subseteq> H \<and> fl \<subseteq> H \<and> set rs \<inter> fl = {}
     \<and> (\<forall>x\<in>fl. floating s x)
     \<and> (\<forall>p\<in>H. kids_ok s H cs p)
     \<and> (\<forall>x\<in>H. up_ok s H rs cs d fl x)"

text \<open>The first child of a node.\<close>

definition adopted :: "store \<Rightarrow> nat \<Rightarrow> nat \<Rightarrow> store" where
  "adopted s p y =
     (let s1 = s(y := (s y)\<lparr>parent := Some p, right_sibling := None, left_sibling := None\<rparr>)
      in s1(p := (s1 p)\<lparr>children := Some y, rank := 1\<rparr>))"

text \<open>
  What an operation of the heap leaves alone: the fields \<open>val\<close>, \<open>state\<close> and
  \<open>index\<close> of every node, and the nodes outside the heap altogether.
\<close>

definition same_data :: "store \<Rightarrow> store \<Rightarrow> bool" where
  "same_data s s' \<longleftrightarrow>
     (\<forall>z. val (s' z) = val (s z) \<and> state (s' z) = state (s z) \<and> index (s' z) = index (s z))"

definition outside :: "nat set \<Rightarrow> store \<Rightarrow> store \<Rightarrow> bool" where
  "outside H s s' \<longleftrightarrow> (\<forall>z. z \<notin> H \<longrightarrow> s' z = s z)"

text \<open>
  A heap between two operations: \<open>min_node\<close> is null when there is no root and one of
  the roots otherwise. It need not be a root of least value.
\<close>

definition heap_ok :: "memory \<Rightarrow> nat set \<Rightarrow> bool" where
  "heap_ok m H \<longleftrightarrow>
     (\<exists>rs cs d. hinv (fst m) H rs cs d {}
        \<and> (min_node (snd m) = None \<longrightarrow> rs = [])
        \<and> (\<forall>mn. min_node (snd m) = Some mn \<longrightarrow> mn \<in> set rs))"

text \<open>
  The table \<open>roots_by_rank\<close> during the walk of \<open>remove_min\<close>: every entry is one
  of the roots \<open>P\<close> that the walk has passed, filed under its rank.
\<close>

definition buckets_ok :: "store \<Rightarrow> FibonacciHeap \<Rightarrow> nat set \<Rightarrow> bool" where
  "buckets_ok s heap P \<longleftrightarrow>
     (\<forall>r<100. \<forall>x. roots_by_rank heap r = Some x \<longrightarrow> x \<in> P \<and> unat (rank (s x)) = r)"

text \<open>
  \<open>yields B r Q\<close>: the computation \<open>r\<close> returns a value with the property \<open>Q\<close>, or
  it does not return, and then \<open>B\<close> is false. \<open>B\<close> is the bound under which the ranks
  stay inside the table \<open>roots_by_rank\<close>.
\<close>

definition yields :: "bool \<Rightarrow> 'a option \<Rightarrow> ('a \<Rightarrow> bool) \<Rightarrow> bool" where
  "yields B r Q \<longleftrightarrow> (case r of None \<Rightarrow> \<not> B | Some y \<Rightarrow> Q y)"

text \<open>
  A node with the links and the rank that \<open>initialize_node\<close> gives it.
\<close>

definition unlinked :: "store \<Rightarrow> nat \<Rightarrow> bool" where
  "unlinked s x \<longleftrightarrow>
     parent (s x) = None \<and> left_sibling (s x) = None \<and> right_sibling (s x) = None
     \<and> children (s x) = None \<and> rank (s x) = 0"

text \<open>
  Well-formed compressed rows over \<open>N\<close> nodes: the row pointers delimit \<open>N\<close> rows,
  and every position of a row lies inside both arrays and names one of the nodes.
  \<open>closed_under R\<close>: the set \<open>R\<close> contains the neighbours of its members.
\<close>

definition csr_ok :: "nat \<Rightarrow> nat list \<Rightarrow> DTYPE_t list \<Rightarrow> nat list \<Rightarrow> bool" where
  "csr_ok N neighbors distances indptr \<longleftrightarrow>
     N < length indptr
     \<and> list_all (\<lambda>v. list_all (\<lambda>i. i < length neighbors \<and> i < length distances
                                   \<and> neighbors ! i < N)
                         [indptr ! v ..< indptr ! (v + 1)]) [0..<N]"

definition closed_under :: "nat set \<Rightarrow> nat \<Rightarrow> nat list \<Rightarrow> nat list \<Rightarrow> bool" where
  "closed_under R N neighbors indptr \<longleftrightarrow>
     (\<forall>v\<in>R. v < N \<longrightarrow>
        (\<forall>k. indptr ! v \<le> k \<and> k < indptr ! (v + 1) \<longrightarrow> neighbors ! k \<in> R))"

text \<open>
  The invariants of a search whose nodes may only be in \<open>R\<close>. While the edges of the
  extracted node are scanned (\<open>scan_inv\<close>) the heap holds the nodes in state 1
  (IN\_HEAP) and no other, the nodes outside it are unlinked, and every node that has left
  state 0 is in \<open>R\<close>. At the head of the loop (\<open>loop_inv\<close>) the heap may instead
  hold one node alone in state 0: the source, which is inserted without a change of state.
  \<open>unscanned\<close> is the set whose size decreases with every turn of the loop.
\<close>

definition scan_inv :: "nat \<Rightarrow> nat set \<Rightarrow> memory \<Rightarrow> nat set \<Rightarrow> bool" where
  "scan_inv N R m H \<longleftrightarrow>
     heap_ok m H \<and> H \<subseteq> {..<N}
     \<and> (\<forall>i<N. index (fst m i) = i \<and> state (fst m i) \<le> 2
              \<and> (i \<in> H \<longleftrightarrow> state (fst m i) = 1)
              \<and> (i \<notin> H \<longrightarrow> unlinked (fst m) i)
              \<and> (state (fst m i) \<noteq> 0 \<longrightarrow> i \<in> R))"

definition loop_inv :: "nat \<Rightarrow> nat set \<Rightarrow> memory \<Rightarrow> bool" where
  "loop_inv N R m \<longleftrightarrow>
     (\<exists>H. heap_ok m H \<and> H \<subseteq> {..<N} \<and> H \<subseteq> R
        \<and> (\<forall>i<N. index (fst m i) = i \<and> state (fst m i) \<le> 2
                 \<and> (i \<notin> H \<longrightarrow> unlinked (fst m) i \<and> state (fst m i) \<noteq> 1)
                 \<and> (state (fst m i) \<noteq> 0 \<longrightarrow> i \<in> R))
        \<and> (\<forall>i\<in>H. state (fst m i) \<noteq> 2)
        \<and> ((\<forall>i\<in>H. state (fst m i) = 1) \<or> (\<exists>x. H = {x})))"

definition unscanned :: "nat \<Rightarrow> store \<Rightarrow> nat set" where
  "unscanned N s = {i. i < N \<and> state (s i) \<noteq> 2}"

text \<open>
  The node array between two searches.
\<close>

definition clean :: "nat \<Rightarrow> store \<Rightarrow> bool" where
  "clean N s \<longleftrightarrow> list_all (\<lambda>i. unlinked s i \<and> index (s i) = i) [0..<N]"

text \<open>
  What a search from \<open>i_node\<close> changes in the result: entries of row \<open>i_node\<close>,
  and only in the columns of \<open>R\<close>.
\<close>

definition row_written :: "nat set \<Rightarrow> nat \<Rightarrow> nat \<Rightarrow> ndarray \<Rightarrow> ndarray \<Rightarrow> bool" where
  "row_written R N i_node graph graph' \<longleftrightarrow>
     length graph' = length graph \<and> length (graph' ! i_node) = N
     \<and> (\<forall>r. r \<noteq> i_node \<longrightarrow> graph' ! r = graph ! r)
     \<and> (\<forall>j. j \<notin> R \<longrightarrow> graph' ! i_node ! j = graph ! i_node ! j)"








section \<open>Evaluation\<close>

text \<open>
  Runs on concrete inputs are computed by rewriting with the definitions. Updates of the
  store are kept sorted by position, so that the term for the store does not grow.
\<close>

lemma bind_weak_cong: "m = m' \<Longrightarrow> Option.bind m f = Option.bind m' f"
  by simp

lemma store_upd_sorted:
  "b < a \<Longrightarrow> (f(a := x))(b := y) = (f(b := y))(a := (x::FibonacciNode))" for a b :: nat
  by (simp add: fun_upd_twist)

text \<open>
  The cleared table: positions below 100 are empty, the others as before. On a table that
  was only ever written below 100 the result is the empty table.
\<close>

lemma clear_roots_by_rank_apply:
  "clear_roots_by_rank table i = (if i < 100 then None else table i)"
proof -
  have "fold (\<lambda>i table. table(i := None)) [0..<n] table i
          = (if i < n then None else table i)" for n
    by (induction n) simp_all
  then show ?thesis by (simp add: clear_roots_by_rank_def)
qed

lemma clear_roots_by_rank_empty: "clear_roots_by_rank (\<lambda>i. None) = (\<lambda>i. None)"
  by (rule ext) (simp add: clear_roots_by_rank_apply)

lemma clear_roots_by_rank_upd:
  "r < 100 \<Longrightarrow> clear_roots_by_rank (table(r := x)) = clear_roots_by_rank table"
  by (rule ext) (simp add: clear_roots_by_rank_apply)

lemmas heap_rules =
  insert_node_def decrease_val_def link.simps relink.simps promote_children.simps
  remove_min_def remove_min_relink_def remove_def add_child_def add_sibling_def
  rightmost_sibling.simps leftmost_sibling.simps initialize_node_def malloc_nodes_def
  local_heap_def Let_def zero_DTYPE_t_def store_upd_sorted
  clear_roots_by_rank_empty clear_roots_by_rank_upd

lemmas search_rules =
  dijkstra_def cdef_dijkstra_def dijkstra_directed_one_row_def dijkstra_one_row_def
  directed_loop.simps undirected_loop.simps scan_row_def scan_edge_def
  initialize_nodes_def reset_nodes_def
  read_at_def graph_set_def csr_matrix_def csr_of_rows_def row_entries_def
  csr_transpose_def csr_row_def

lemmas floyd_warshall_rules =
  floyd_warshall_def cdef_floyd_warshall_def zeros_to_infinity_def zero_diagonal_def
  symmetrize_def symmetrize_step_def relax_all_def relax_row_def relax_step_def
  infinity_to_zeros_def is_square_def np_array_def np_asarray_def alloc_def
  toarray_def csr_get_def csr_row_def Let_def zero_DTYPE_t_def


section \<open>Fields after the node operations\<close>

lemma remove_parent: "parent (remove s x y) = (if y = x then None else parent (s y))"
  by (cases "parent (s x)"; cases "left_sibling (s x)"; cases "right_sibling (s x)")
     (auto simp add: remove_def Let_def)

lemma remove_left:
  "left_sibling (remove s x y) =
     (if y = x then None
      else if right_sibling (s x) = Some y then left_sibling (s x)
      else left_sibling (s y))"
  by (cases "parent (s x)"; cases "left_sibling (s x)"; cases "right_sibling (s x)")
     (auto simp add: remove_def Let_def)

lemma remove_right:
  "right_sibling (remove s x y) =
     (if y = x then None
      else if left_sibling (s x) = Some y then right_sibling (s x)
      else right_sibling (s y))"
  by (cases "parent (s x)"; cases "left_sibling (s x)"; cases "right_sibling (s x)")
     (auto simp add: remove_def Let_def)

lemma remove_rank:
  "rank (remove s x y) = (if parent (s x) = Some y then rank (s y) - 1 else rank (s y))"
  by (cases "parent (s x)"; cases "left_sibling (s x)"; cases "right_sibling (s x)")
     (auto simp add: remove_def Let_def)

lemma remove_children:
  "children (remove s x y) =
     (if parent (s x) = Some y
      then (case left_sibling (s x) of Some l \<Rightarrow> Some l | None \<Rightarrow> right_sibling (s x))
      else children (s y))"
  by (cases "parent (s x)"; cases "left_sibling (s x)"; cases "right_sibling (s x)")
     (auto simp add: remove_def Let_def)

lemma remove_val [simp]: "val (remove s x y) = val (s y)"
  by (cases "parent (s x)"; cases "left_sibling (s x)"; cases "right_sibling (s x)")
     (auto simp add: remove_def Let_def)

lemma remove_state [simp]: "state (remove s x y) = state (s y)"
  by (cases "parent (s x)"; cases "left_sibling (s x)"; cases "right_sibling (s x)")
     (auto simp add: remove_def Let_def)

lemma remove_index [simp]: "index (remove s x y) = index (s y)"
  by (cases "parent (s x)"; cases "left_sibling (s x)"; cases "right_sibling (s x)")
     (auto simp add: remove_def Let_def)

lemma add_sibling_appended:
  "rightmost_sibling s n = Some t \<Longrightarrow> t \<noteq> y \<Longrightarrow> n \<noteq> y \<Longrightarrow>
     add_sibling s n y = Some (appended s t y (parent (s n)))"
  by (cases "parent (s n)") (auto simp add: add_sibling_def appended_def Let_def)

lemma appended_right:
  "t \<noteq> y \<Longrightarrow> right_sibling (appended s t y par z) =
     (if z = y then None else if z = t then Some y else right_sibling (s z))"
  by (simp add: appended_def Let_def split: option.splits)

lemma appended_left:
  "left_sibling (appended s t y par z) = (if z = y then Some t else left_sibling (s z))"
  by (simp add: appended_def Let_def split: option.splits)

lemma appended_parent:
  "parent (appended s t y par z) = (if z = y then par else parent (s z))"
  by (simp add: appended_def Let_def split: option.splits)

lemma appended_rank:
  "rank (appended s t y par z) = (if par = Some z then rank (s z) + 1 else rank (s z))"
  by (simp add: appended_def Let_def split: option.splits)

lemma appended_children [simp]: "children (appended s t y par z) = children (s z)"
  by (simp add: appended_def Let_def split: option.splits)

lemma appended_val [simp]: "val (appended s t y par z) = val (s z)"
  by (simp add: appended_def Let_def split: option.splits)

lemma appended_state [simp]: "state (appended s t y par z) = state (s z)"
  by (simp add: appended_def Let_def split: option.splits)

lemma appended_index [simp]: "index (appended s t y par z) = index (s z)"
  by (simp add: appended_def Let_def split: option.splits)

section \<open>Sibling lists\<close>

lemma seg_append:
  "seg s l (as @ bs) r \<longleftrightarrow>
     seg s l as (case bs of [] \<Rightarrow> r | b # _ \<Rightarrow> Some b)
     \<and> seg s (if as = [] then l else Some (last as)) bs r"
  by (induction as arbitrary: l) (auto split: list.splits)

lemma seg_cong:
  "\<forall>x\<in>set xs. left_sibling (s' x) = left_sibling (s x)
              \<and> right_sibling (s' x) = right_sibling (s x)
   \<Longrightarrow> seg s' l xs r = seg s l xs r"
  by (induction xs arbitrary: l) auto

lemma rightmost_sibling_seg:
  "seg s l (x # bs) None \<Longrightarrow> rightmost_sibling s x = Some (last (x # bs))"
proof (induction bs arbitrary: x l)
  case Nil
  then show ?case by (simp add: rightmost_sibling.simps [of s x])
next
  case (Cons b bs)
  from Cons.prems have "right_sibling (s x) = Some b" "seg s (Some x) (b # bs) None"
    by simp_all
  with Cons.IH [of "Some x" b] show ?case
    by (simp add: rightmost_sibling.simps [of s x])
qed

lemma leftmost_sibling_seg:
  "seg s None (as @ [x]) r \<Longrightarrow> leftmost_sibling s x = Some (hd (as @ [x]))"
proof (induction as arbitrary: x r rule: rev_induct)
  case Nil
  then show ?case by (simp add: leftmost_sibling.simps [of s x])
next
  case (snoc a as)
  from snoc.prems have "seg s None ((as @ [a]) @ [x]) r" by simp
  then have 1: "seg s None (as @ [a]) (Some x)" and 2: "left_sibling (s x) = Some a"
    unfolding seg_append [of s None "as @ [a]" "[x]"] by simp_all
  from snoc.IH [OF 1] 2 show ?case
    by (simp add: leftmost_sibling.simps [of s x] hd_append)
qed

lemma sibs_rightmost:
  assumes "sibs s par xs" and "x \<in> set xs"
  shows "rightmost_sibling s x = Some (last xs)"
proof -
  from assms(2) obtain as bs where xs: "xs = as @ x # bs" by (auto dest: split_list)
  with assms(1) have "seg s None (as @ x # bs) None" by (simp add: sibs_def)
  then have "seg s (if as = [] then None else Some (last as)) (x # bs) None"
    unfolding seg_append [of s None as "x # bs"] by simp
  from rightmost_sibling_seg [OF this] xs show ?thesis by simp
qed

lemma sibs_leftmost:
  assumes "sibs s par xs" and "x \<in> set xs"
  shows "leftmost_sibling s x = Some (hd xs)"
proof -
  from assms(2) obtain as bs where xs: "xs = as @ x # bs" by (auto dest: split_list)
  with assms(1) have "seg s None ((as @ [x]) @ bs) None" by (simp add: sibs_def)
  then have "seg s None (as @ [x]) (case bs of [] \<Rightarrow> None | b # _ \<Rightarrow> Some b)"
    unfolding seg_append [of s None "as @ [x]" bs] by simp
  from leftmost_sibling_seg [OF this] xs show ?thesis by (simp add: hd_append)
qed

lemma sibs_parent: "sibs s par xs \<Longrightarrow> x \<in> set xs \<Longrightarrow> parent (s x) = par"
  by (simp add: sibs_def list_all_iff)

lemma sibs_distinct: "sibs s par xs \<Longrightarrow> distinct xs"
  by (simp add: sibs_def)

lemma sibs_frame:
  assumes "sibs s par xs"
    and "\<And>z. z \<in> set xs \<Longrightarrow> left_sibling (s' z) = left_sibling (s z)"
    and "\<And>z. z \<in> set xs \<Longrightarrow> right_sibling (s' z) = right_sibling (s z)"
    and "\<And>z. z \<in> set xs \<Longrightarrow> parent (s' z) = parent (s z)"
  shows "sibs s' par xs"
proof -
  from assms(2,3) have "seg s' None xs None = seg s None xs None"
    by (intro seg_cong) simp
  with assms(1,4) show ?thesis
    by (simp add: sibs_def list_all_iff)
qed

text \<open>The neighbours of an element of a sibling list.\<close>

lemma sibs_neighbours:
  assumes "sibs s par (as @ x # bs)"
  shows "left_sibling (s x) = (if as = [] then None else Some (last as))"
    and "right_sibling (s x) = (case bs of [] \<Rightarrow> None | b # _ \<Rightarrow> Some b)"
proof -
  from assms have "seg s None (as @ x # bs) None" by (simp add: sibs_def)
  then have "seg s (if as = [] then None else Some (last as)) (x # bs) None"
    unfolding seg_append [of s None as "x # bs"] by simp
  then show "left_sibling (s x) = (if as = [] then None else Some (last as))"
    and "right_sibling (s x) = (case bs of [] \<Rightarrow> None | b # _ \<Rightarrow> Some b)"
    by simp_all
qed

lemma sibs_left_in:
  assumes "sibs s par xs" and "x \<in> set xs" and "left_sibling (s x) = Some l"
  shows "l \<in> set xs \<and> l \<noteq> x"
proof -
  from assms(2) obtain as bs where xs: "xs = as @ x # bs" by (auto dest: split_list)
  from sibs_neighbours(1) [OF assms(1) [unfolded xs]] assms(3)
  have "as \<noteq> [] \<and> l = last as" by (auto split: if_splits)
  moreover from assms(1) xs have "x \<notin> set as" by (simp add: sibs_def)
  ultimately show ?thesis using xs by (auto dest: last_in_set)
qed

lemma sibs_right_in:
  assumes "sibs s par xs" and "x \<in> set xs" and "right_sibling (s x) = Some r"
  shows "r \<in> set xs \<and> r \<noteq> x"
proof -
  from assms(2) obtain as bs where xs: "xs = as @ x # bs" by (auto dest: split_list)
  from sibs_neighbours(2) [OF assms(1) [unfolded xs]] assms(3)
  obtain bs' where "bs = r # bs'" by (auto split: list.splits)
  moreover from assms(1) xs have "x \<notin> set bs" by (simp add: sibs_def)
  ultimately show ?thesis using xs by auto
qed

lemma sibs_singleton_iff:
  "sibs s par [x] \<longleftrightarrow>
     left_sibling (s x) = None \<and> right_sibling (s x) = None \<and> parent (s x) = par"
  by (auto simp add: sibs_def)

lemma sibs_alone:
  assumes "sibs s par xs" and "x \<in> set xs"
    and "left_sibling (s x) = None" and "right_sibling (s x) = None"
  shows "xs = [x]"
proof -
  from assms(2) obtain as bs where xs: "xs = as @ x # bs" by (auto dest: split_list)
  from sibs_neighbours [OF assms(1) [unfolded xs]] assms(3,4) have "as = []" "bs = []"
    by (auto split: if_splits list.splits)
  with xs show ?thesis by simp
qed

text \<open>Unlinking an element.\<close>

lemma seg_unlink:
  assumes seg: "seg s None (as @ x # bs) None" and d: "distinct (as @ x # bs)"
    and L: "\<And>z. z \<noteq> x \<Longrightarrow> left_sibling (s' z) =
              (if right_sibling (s x) = Some z then left_sibling (s x) else left_sibling (s z))"
    and R: "\<And>z. z \<noteq> x \<Longrightarrow> right_sibling (s' z) =
              (if left_sibling (s x) = Some z then right_sibling (s x) else right_sibling (s z))"
  shows "seg s' None (as @ bs) None"
proof -
  let ?L = "if as = [] then None else Some (last as)"
  let ?R = "case bs of [] \<Rightarrow> None | b # _ \<Rightarrow> Some b"
  from seg have A0: "seg s None as (Some x)" and X: "seg s ?L (x # bs) None"
    unfolding seg_append [of s None as "x # bs"] by simp_all
  from X have lx: "left_sibling (s x) = ?L" and rx: "right_sibling (s x) = ?R"
    and B0: "seg s (Some x) bs None" by simp_all
  have A: "seg s' None as ?R"
  proof (cases as rule: rev_cases)
    case Nil
    then show ?thesis by simp
  next
    case (snoc as' a)
    with A0 have 1: "seg s None as' (Some a)"
      and 2: "left_sibling (s a) = (if as' = [] then None else Some (last as'))"
      and 3: "right_sibling (s a) = Some x"
      unfolding snoc seg_append [of s None as' "[a]"] by simp_all
    from d snoc have ax: "a \<noteq> x" "a \<notin> set bs" "a \<notin> set as'" "x \<notin> set as'" by auto
    have "seg s' None as' (Some a) = seg s None as' (Some a)"
    proof (rule seg_cong, intro ballI conjI)
      fix z assume z: "z \<in> set as'"
      with d snoc ax have zz: "z \<noteq> x" "z \<noteq> a" "z \<notin> set bs" by auto
      from zz(3) have "?R \<noteq> Some z" by (auto split: list.splits)
      with L [OF zz(1)] rx show "left_sibling (s' z) = left_sibling (s z)" by simp
      from zz(2) snoc have "?L \<noteq> Some z" by simp
      with R [OF zz(1)] lx show "right_sibling (s' z) = right_sibling (s z)" by simp
    qed
    with 1 have 4: "seg s' None as' (Some a)" by simp
    from ax(2) have "?R \<noteq> Some a" by (auto split: list.splits)
    with L [OF ax(1)] rx 2
    have 5: "left_sibling (s' a) = (if as' = [] then None else Some (last as'))" by simp
    from R [OF ax(1)] lx rx snoc have 6: "right_sibling (s' a) = ?R" by simp
    from 4 5 6 show ?thesis
      unfolding snoc seg_append [of s' None as' "[a]"] by simp
  qed
  have B: "seg s' ?L bs None"
  proof (cases bs)
    case Nil
    then show ?thesis by simp
  next
    case (Cons b bs')
    from d Cons have bx: "b \<noteq> x" "b \<notin> set as" "b \<notin> set bs'" "x \<notin> set bs'" by auto
    from B0 Cons have 1: "left_sibling (s b) = Some x"
      and 2: "right_sibling (s b) = (case bs' of [] \<Rightarrow> None | y # _ \<Rightarrow> Some y)"
      and 3: "seg s (Some b) bs' None" by simp_all
    have "seg s' (Some b) bs' None = seg s (Some b) bs' None"
    proof (rule seg_cong, intro ballI conjI)
      fix z assume z: "z \<in> set bs'"
      with d Cons bx have zz: "z \<noteq> x" "z \<noteq> b" "z \<notin> set as" by auto
      from zz(2) Cons have "?R \<noteq> Some z" by simp
      with L [OF zz(1)] rx show "left_sibling (s' z) = left_sibling (s z)" by simp
      from zz(3) have "?L \<noteq> Some z" by (auto dest: last_in_set)
      with R [OF zz(1)] lx show "right_sibling (s' z) = right_sibling (s z)" by simp
    qed
    with 3 have 4: "seg s' (Some b) bs' None" by simp
    from L [OF bx(1)] rx lx Cons have 5: "left_sibling (s' b) = ?L" by simp
    from bx(2) have "?L \<noteq> Some b" by (auto dest: last_in_set)
    with R [OF bx(1)] lx 2
    have 6: "right_sibling (s' b) = (case bs' of [] \<Rightarrow> None | y # _ \<Rightarrow> Some y)" by simp
    from 4 5 6 show ?thesis unfolding Cons by simp
  qed
  from A B show ?thesis
    unfolding seg_append [of s' None as bs] by simp
qed

lemma sibs_remove:
  assumes "sibs s par xs" and "x \<in> set xs"
  shows "sibs (remove s x) par (remove1 x xs)"
proof -
  from assms(2) obtain as bs where xs: "xs = as @ x # bs" by (auto dest: split_list)
  from assms(1) xs have d: "distinct (as @ x # bs)" and seg: "seg s None (as @ x # bs) None"
    by (simp_all add: sibs_def)
  from d have r1: "remove1 x xs = as @ bs"
    by (simp add: xs remove1_append)
  have "seg (remove s x) None (as @ bs) None"
    by (rule seg_unlink [OF seg d]) (simp_all add: remove_left remove_right)
  moreover have "list_all (\<lambda>z. parent (remove s x z) = par) (as @ bs)"
    using assms(1) d by (auto simp add: sibs_def xs list_all_iff remove_parent)
  ultimately show ?thesis using d by (simp add: sibs_def r1)
qed

text \<open>Appending an element.\<close>

lemma sibs_appended:
  assumes "sibs s par xs" and "xs \<noteq> []" and "y \<notin> set xs"
  shows "sibs (appended s (last xs) y par) par (xs @ [y])"
proof -
  let ?t = "last xs" and ?s' = "appended s (last xs) y par"
  from assms(2) obtain xs' where xs: "xs = xs' @ [?t]"
    by (metis append_butlast_last_id)
  from assms(2,3) have ty: "?t \<noteq> y" by (auto dest: last_in_set)
  from assms(1) have d: "distinct xs" and seg: "seg s None xs None" by (simp_all add: sibs_def)
  from d xs have tn: "?t \<notin> set xs'" by (metis distinct_append distinct.simps(2) disjoint_iff list.set_intros(1) not_distinct_conv_prefix append.assoc append_Cons append_Nil)
  from seg have 1: "seg s None xs' (Some ?t)"
    and 2: "left_sibling (s ?t) = (if xs' = [] then None else Some (last xs'))"
    by (subst (asm) xs, subst (asm) seg_append, simp)+
  have "seg ?s' None xs' (Some ?t) = seg s None xs' (Some ?t)"
  proof (rule seg_cong, intro ballI conjI)
    fix z assume "z \<in> set xs'"
    with tn assms(3) xs have zz: "z \<noteq> ?t" "z \<noteq> y" by (auto, metis UnCI set_append)
    then show "left_sibling (?s' z) = left_sibling (s z)"
      and "right_sibling (?s' z) = right_sibling (s z)"
      using ty by (simp_all add: appended_left appended_right)
  qed
  with 1 have 3: "seg ?s' None xs' (Some ?t)" by simp
  from 2 ty have 4: "left_sibling (?s' ?t) = (if xs' = [] then None else Some (last xs'))"
    and 5: "right_sibling (?s' ?t) = Some y"
    by (simp_all add: appended_left appended_right)
  from ty have 6: "left_sibling (?s' y) = Some ?t" "right_sibling (?s' y) = None"
    by (simp_all add: appended_left appended_right)
  have "seg ?s' None ((xs' @ [?t]) @ [y]) None"
    unfolding seg_append [of ?s' None "xs' @ [?t]" "[y]"]
    unfolding seg_append [of ?s' None xs' "[?t]"]
    using 3 4 5 6 by simp
  with xs have "seg ?s' None (xs @ [y]) None" by simp
  moreover have "list_all (\<lambda>z. parent (?s' z) = par) (xs @ [y])"
    using assms(1,3) by (auto simp add: sibs_def list_all_iff appended_parent)
  ultimately show ?thesis using d assms(3) by (simp add: sibs_def)
qed

section \<open>The shape of the heap\<close>

lemma hinvI:
  assumes "finite H" "sibs s None rs" "set rs \<subseteq> H" "fl \<subseteq> H" "set rs \<inter> fl = {}"
    and "\<And>x. x \<in> fl \<Longrightarrow> floating s x"
    and "\<And>p. p \<in> H \<Longrightarrow> kids_ok s H cs p"
    and "\<And>x. x \<in> H \<Longrightarrow> up_ok s H rs cs d fl x"
  shows "hinv s H rs cs d fl"
  using assms by (simp add: hinv_def)

lemma hinv_finite: "hinv s H rs cs d fl \<Longrightarrow> finite H"
  and hinv_roots: "hinv s H rs cs d fl \<Longrightarrow> sibs s None rs"
  and hinv_roots_in: "hinv s H rs cs d fl \<Longrightarrow> set rs \<subseteq> H"
  and hinv_fl_in: "hinv s H rs cs d fl \<Longrightarrow> fl \<subseteq> H"
  and hinv_disj: "hinv s H rs cs d fl \<Longrightarrow> set rs \<inter> fl = {}"
  and hinv_floating: "hinv s H rs cs d fl \<Longrightarrow> x \<in> fl \<Longrightarrow> floating s x"
  and hinv_kids: "hinv s H rs cs d fl \<Longrightarrow> p \<in> H \<Longrightarrow> kids_ok s H cs p"
  and hinv_up: "hinv s H rs cs d fl \<Longrightarrow> x \<in> H \<Longrightarrow> up_ok s H rs cs d fl x"
  by (simp_all add: hinv_def)

lemma hinv_root_parent: "hinv s H rs cs d fl \<Longrightarrow> x \<in> set rs \<Longrightarrow> parent (s x) = None"
  by (auto dest: hinv_roots sibs_parent)

lemma hinv_kid_parent:
  "hinv s H rs cs d fl \<Longrightarrow> p \<in> H \<Longrightarrow> x \<in> set (cs p) \<Longrightarrow> parent (s x) = Some p"
  by (auto dest!: hinv_kids simp add: kids_ok_def dest: sibs_parent)

lemma hinv_kid_in: "hinv s H rs cs d fl \<Longrightarrow> p \<in> H \<Longrightarrow> x \<in> set (cs p) \<Longrightarrow> x \<in> H"
  by (auto dest!: hinv_kids simp add: kids_ok_def)

lemma hinv_parent_in:
  "hinv s H rs cs d fl \<Longrightarrow> x \<in> H \<Longrightarrow> parent (s x) = Some p
     \<Longrightarrow> p \<in> H \<and> x \<in> set (cs p) \<and> d p < d x"
  by (auto dest!: hinv_up simp add: up_ok_def)

lemma hinv_orphan:
  "hinv s H rs cs d fl \<Longrightarrow> x \<in> H \<Longrightarrow> parent (s x) = None \<Longrightarrow> x \<in> set rs \<union> fl"
  by (auto dest!: hinv_up simp add: up_ok_def)

lemma hinv_not_own_parent: "hinv s H rs cs d fl \<Longrightarrow> x \<in> H \<Longrightarrow> parent (s x) \<noteq> Some x"
  by (auto dest: hinv_parent_in)

text \<open>Taking a root out of the list of roots.\<close>

lemma hinv_remove_root:
  assumes inv: "hinv s H rs cs d fl" and x: "x \<in> set rs"
  shows "hinv (remove s x) H (remove1 x rs) cs d (insert x fl)"
proof -
  let ?s = "remove s x"
  note roots = hinv_roots [OF inv]
  from hinv_root_parent [OF inv x] have px: "parent (s x) = None" .
  have par: "parent (?s z) = parent (s z)" for z
    using px by (simp add: remove_parent)
  have rk: "rank (?s z) = rank (s z)" and ch: "children (?s z) = children (s z)" for z
    using px by (simp_all add: remove_rank remove_children)
  have out: "left_sibling (?s z) = left_sibling (s z) \<and> right_sibling (?s z) = right_sibling (s z)"
    if "z \<notin> set rs" for z
  proof -
    from that x have "z \<noteq> x" by auto
    moreover from that sibs_right_in [OF roots x] have "right_sibling (s x) \<noteq> Some z" by auto
    moreover from that sibs_left_in [OF roots x] have "left_sibling (s x) \<noteq> Some z" by auto
    ultimately show ?thesis by (simp add: remove_left remove_right)
  qed
  show ?thesis
  proof (rule hinvI)
    show "finite H" by (rule hinv_finite [OF inv])
    show "sibs ?s None (remove1 x rs)" by (rule sibs_remove [OF roots x])
    show "set (remove1 x rs) \<subseteq> H" using hinv_roots_in [OF inv] by (auto dest: notin_set_remove1)
    show "insert x fl \<subseteq> H" using hinv_fl_in [OF inv] hinv_roots_in [OF inv] x by auto
    show "set (remove1 x rs) \<inter> insert x fl = {}"
      using hinv_disj [OF inv] sibs_distinct [OF roots] by (auto dest: notin_set_remove1)
  next
    fix z assume "z \<in> insert x fl"
    then show "floating ?s z"
    proof
      assume "z = x"
      then show ?thesis by (simp add: floating_def remove_parent remove_left remove_right)
    next
      assume z: "z \<in> fl"
      with hinv_disj [OF inv] have "z \<notin> set rs" by auto
      from out [OF this] hinv_floating [OF inv z] show ?thesis
        by (simp add: floating_def par)
    qed
  next
    fix p assume p: "p \<in> H"
    note k = hinv_kids [OF inv p]
    have "sibs ?s (Some p) (cs p)"
    proof (rule sibs_frame [where s = s])
      show "sibs s (Some p) (cs p)" using k by (simp add: kids_ok_def)
    next
      fix z assume "z \<in> set (cs p)"
      with hinv_kid_parent [OF inv p] have "parent (s z) = Some p" by simp
      with hinv_root_parent [OF inv] have "z \<notin> set rs" by auto
      from out [OF this] show "left_sibling (?s z) = left_sibling (s z)"
        and "right_sibling (?s z) = right_sibling (s z)" by simp_all
    qed (rule par)
    with k show "kids_ok ?s H cs p" by (simp add: kids_ok_def rk ch)
  next
    fix z assume "z \<in> H"
    from hinv_up [OF inv this] sibs_distinct [OF roots]
    show "up_ok ?s H (remove1 x rs) cs d (insert x fl) z"
      by (auto simp add: up_ok_def par)
  qed
qed

text \<open>Cutting a child from its parent.\<close>

lemma hinv_remove_child:
  assumes inv: "hinv s H rs cs d fl" and x: "x \<in> H" and px: "parent (s x) = Some p"
  shows "hinv (remove s x) H rs (cs(p := remove1 x (cs p))) d (insert x fl)"
proof -
  let ?s = "remove s x" and ?cs = "cs(p := remove1 x (cs p))"
  from hinv_parent_in [OF inv x px] have p: "p \<in> H" and xp: "x \<in> set (cs p)" by simp_all
  from hinv_kids [OF inv p] have kp: "sibs s (Some p) (cs p)"
    and rp: "rank (s p) = of_nat (length (cs p))" by (simp_all add: kids_ok_def)
  from px hinv_not_own_parent [OF inv x] have xnp: "x \<noteq> p" by auto
  have par: "parent (?s z) = (if z = x then None else parent (s z))" for z
    by (simp add: remove_parent)
  have rk: "rank (?s z) = (if z = p then rank (s z) - 1 else rank (s z))" for z
    using px by (auto simp add: remove_rank)
  have ch: "children (?s z) =
      (if z = p then (case left_sibling (s x) of Some l \<Rightarrow> Some l | None \<Rightarrow> right_sibling (s x))
       else children (s z))" for z
    using px by (auto simp add: remove_children)
  have out: "left_sibling (?s z) = left_sibling (s z) \<and> right_sibling (?s z) = right_sibling (s z)"
    if "z \<notin> set (cs p)" for z
  proof -
    from that xp have "z \<noteq> x" by auto
    moreover from that sibs_right_in [OF kp xp] have "right_sibling (s x) \<noteq> Some z" by auto
    moreover from that sibs_left_in [OF kp xp] have "left_sibling (s x) \<noteq> Some z" by auto
    ultimately show ?thesis by (simp add: remove_left remove_right)
  qed
  have notkid: "z \<notin> set (cs p)" if "parent (s z) \<noteq> Some p" for z
    using that sibs_parent [OF kp] by auto
  have xrs: "x \<notin> set rs" using hinv_root_parent [OF inv, of x] px by auto
  have xfl: "x \<notin> fl" using hinv_floating [OF inv, of x] px by (auto simp add: floating_def)
  show ?thesis
  proof (rule hinvI)
    show "finite H" by (rule hinv_finite [OF inv])
    show "sibs ?s None rs"
    proof (rule sibs_frame [OF hinv_roots [OF inv]])
      fix z assume "z \<in> set rs"
      with hinv_root_parent [OF inv] xrs have z: "parent (s z) = None" "z \<noteq> x" by auto
      from z(1) have "z \<notin> set (cs p)" by (intro notkid) simp
      from out [OF this] z show "left_sibling (?s z) = left_sibling (s z)"
        and "right_sibling (?s z) = right_sibling (s z)"
        and "parent (?s z) = parent (s z)" by (simp_all add: par)
    qed
    show "set rs \<subseteq> H" by (rule hinv_roots_in [OF inv])
    show "insert x fl \<subseteq> H" using hinv_fl_in [OF inv] x by auto
    show "set rs \<inter> insert x fl = {}" using hinv_disj [OF inv] xrs by auto
  next
    fix z assume "z \<in> insert x fl"
    then show "floating ?s z"
    proof
      assume "z = x"
      then show ?thesis by (simp add: floating_def remove_parent remove_left remove_right)
    next
      assume z: "z \<in> fl"
      from hinv_floating [OF inv z] have f: "floating s z" .
      then have "z \<notin> set (cs p)" by (intro notkid) (simp add: floating_def)
      from out [OF this] f show ?thesis by (simp add: floating_def par)
    qed
  next
    fix q assume q: "q \<in> H"
    note k = hinv_kids [OF inv q]
    show "kids_ok ?s H ?cs q"
    proof (cases "q = p")
      case True
      have 1: "sibs ?s (Some p) (remove1 x (cs p))" by (rule sibs_remove [OF kp xp])
      have 2: "set (remove1 x (cs p)) \<subseteq> H"
        using k True by (auto simp add: kids_ok_def dest: notin_set_remove1)
      from xp have "length (cs p) = Suc (length (remove1 x (cs p)))"
        by (simp add: length_remove1) (cases "cs p"; simp)
      with rp have 3: "rank (s p) - 1 = of_nat (length (remove1 x (cs p)))" by simp
      let ?c = "case left_sibling (s x) of Some l \<Rightarrow> Some l | None \<Rightarrow> right_sibling (s x)"
      have 4: "(?c = None \<longrightarrow> remove1 x (cs p) = [])
               \<and> (\<forall>c. ?c = Some c \<longrightarrow> c \<in> set (remove1 x (cs p)))"
      proof (cases "left_sibling (s x)")
        case (Some l)
        with sibs_left_in [OF kp xp] show ?thesis by simp
      next
        case None
        show ?thesis
        proof (cases "right_sibling (s x)")
          case (Some r)
          with None sibs_right_in [OF kp xp] show ?thesis by simp
        next
          case None': None
          from sibs_alone [OF kp xp None None'] None None' show ?thesis by simp
        qed
      qed
      from 1 2 3 4 True show ?thesis by (simp add: kids_ok_def rk ch)
    next
      case False
      have "sibs ?s (Some q) (cs q)"
      proof (rule sibs_frame [where s = s])
        show "sibs s (Some q) (cs q)" using k by (simp add: kids_ok_def)
      next
        fix z assume "z \<in> set (cs q)"
        with hinv_kid_parent [OF inv q] have pz: "parent (s z) = Some q" by simp
        with False have "z \<notin> set (cs p)" by (intro notkid) simp
        moreover from pz px False have "z \<noteq> x" by auto
        ultimately show "left_sibling (?s z) = left_sibling (s z)"
          and "right_sibling (?s z) = right_sibling (s z)"
          and "parent (?s z) = parent (s z)" using out by (simp_all add: par)
      qed
      with k False show ?thesis by (simp add: kids_ok_def rk ch)
    qed
  next
    fix z assume z: "z \<in> H"
    show "up_ok ?s H rs ?cs d (insert x fl) z"
    proof (cases "z = x")
      case True
      then show ?thesis by (simp add: up_ok_def par)
    next
      case False
      with hinv_up [OF inv z] show ?thesis
        by (auto simp add: up_ok_def par)
    qed
  qed
qed

text \<open>Appending a floating node to the list of roots.\<close>

lemma hinv_append_root:
  assumes inv: "hinv s H rs cs d fl" and y: "y \<in> fl" and ne: "rs \<noteq> []"
  shows "hinv (appended s (last rs) y None) H (rs @ [y]) cs d (fl - {y})"
proof -
  let ?t = "last rs" and ?s = "appended s (last rs) y None"
  from ne have t: "?t \<in> set rs" by simp
  from hinv_floating [OF inv y] have fy: "floating s y" .
  from hinv_disj [OF inv] y have yr: "y \<notin> set rs" by auto
  with t have ty: "?t \<noteq> y" by auto
  have par: "parent (?s z) = parent (s z)" for z
    using fy by (simp add: appended_parent floating_def)
  have rk: "rank (?s z) = rank (s z)" for z by (simp add: appended_rank)
  have out: "left_sibling (?s z) = left_sibling (s z) \<and> right_sibling (?s z) = right_sibling (s z)"
    if "z \<noteq> y" "z \<noteq> ?t" for z
    using that ty by (simp add: appended_left appended_right)
  show ?thesis
  proof (rule hinvI)
    show "finite H" by (rule hinv_finite [OF inv])
    show "sibs ?s None (rs @ [y])" by (rule sibs_appended [OF hinv_roots [OF inv] ne yr])
    show "set (rs @ [y]) \<subseteq> H" using hinv_roots_in [OF inv] hinv_fl_in [OF inv] y by auto
    show "fl - {y} \<subseteq> H" using hinv_fl_in [OF inv] by auto
    show "set (rs @ [y]) \<inter> (fl - {y}) = {}" using hinv_disj [OF inv] by auto
  next
    fix z assume "z \<in> fl - {y}"
    then have z: "z \<in> fl" "z \<noteq> y" by auto
    with hinv_disj [OF inv] t have "z \<noteq> ?t" by auto
    from out [OF z(2) this] hinv_floating [OF inv z(1)] show "floating ?s z"
      by (simp add: floating_def par)
  next
    fix p assume p: "p \<in> H"
    note k = hinv_kids [OF inv p]
    have "sibs ?s (Some p) (cs p)"
    proof (rule sibs_frame [where s = s])
      show "sibs s (Some p) (cs p)" using k by (simp add: kids_ok_def)
    next
      fix z assume "z \<in> set (cs p)"
      with hinv_kid_parent [OF inv p] have pz: "parent (s z) = Some p" by simp
      with fy have "z \<noteq> y" by (auto simp add: floating_def)
      moreover from pz hinv_root_parent [OF inv t] have "z \<noteq> ?t" by auto
      ultimately show "left_sibling (?s z) = left_sibling (s z)"
        and "right_sibling (?s z) = right_sibling (s z)" using out by simp_all
    qed (rule par)
    with k show "kids_ok ?s H cs p" by (simp add: kids_ok_def rk)
  next
    fix z assume "z \<in> H"
    from hinv_up [OF inv this]
    show "up_ok ?s H (rs @ [y]) cs d (fl - {y}) z"
      by (auto simp add: up_ok_def par)
  qed
qed

text \<open>Appending a floating node to the children of a node without parent.\<close>

lemma hinv_append_child:
  assumes inv: "hinv s H rs cs d fl" and y: "y \<in> fl" and p: "p \<in> H"
    and pp: "parent (s p) = None" and py: "p \<noteq> y" and ne: "cs p \<noteq> []"
  shows "hinv (appended s (last (cs p)) y (Some p)) H rs (cs(p := cs p @ [y]))
           (d(p := min (d p) (d y - 1))) (fl - {y})"
proof -
  let ?t = "last (cs p)" and ?s = "appended s (last (cs p)) y (Some p)"
  let ?cs = "cs(p := cs p @ [y])" and ?d = "d(p := min (d p) (d y - 1))"
  from ne have t: "?t \<in> set (cs p)" by simp
  from hinv_kids [OF inv p] have kp: "sibs s (Some p) (cs p)"
    and rp: "rank (s p) = of_nat (length (cs p))"
    and cp: "\<forall>c. children (s p) = Some c \<longrightarrow> c \<in> set (cs p)"
    and sp: "set (cs p) \<subseteq> H"
    by (simp_all add: kids_ok_def)
  from hinv_floating [OF inv y] have fy: "floating s y" .
  from sibs_parent [OF kp] fy have yk: "y \<notin> set (cs p)" by (auto simp add: floating_def)
  with t have ty: "?t \<noteq> y" by auto
  from sibs_parent [OF kp t] have pt: "parent (s ?t) = Some p" .
  have par: "parent (?s z) = (if z = y then Some p else parent (s z))" for z
    by (simp add: appended_parent)
  have rk: "rank (?s z) = (if z = p then rank (s z) + 1 else rank (s z))" for z
    by (auto simp add: appended_rank)
  have out: "left_sibling (?s z) = left_sibling (s z) \<and> right_sibling (?s z) = right_sibling (s z)"
    if "z \<noteq> y" "z \<noteq> ?t" for z
    using that ty by (simp add: appended_left appended_right)
  show ?thesis
  proof (rule hinvI)
    show "finite H" by (rule hinv_finite [OF inv])
    show "sibs ?s None rs"
    proof (rule sibs_frame [OF hinv_roots [OF inv]])
      fix z assume "z \<in> set rs"
      with hinv_root_parent [OF inv] hinv_disj [OF inv] y have "parent (s z) = None" "z \<noteq> y" by auto
      with pt have "z \<noteq> ?t" "z \<noteq> y" by auto
      with out show "left_sibling (?s z) = left_sibling (s z)"
        and "right_sibling (?s z) = right_sibling (s z)"
        and "parent (?s z) = parent (s z)" by (simp_all add: par)
    qed
    show "set rs \<subseteq> H" by (rule hinv_roots_in [OF inv])
    show "fl - {y} \<subseteq> H" using hinv_fl_in [OF inv] by auto
    show "set rs \<inter> (fl - {y}) = {}" using hinv_disj [OF inv] by auto
  next
    fix z assume "z \<in> fl - {y}"
    then have z: "z \<in> fl" "z \<noteq> y" by auto
    from hinv_floating [OF inv z(1)] pt have "z \<noteq> ?t" by (auto simp add: floating_def)
    from out [OF z(2) this] hinv_floating [OF inv z(1)] z(2) show "floating ?s z"
      by (simp add: floating_def par)
  next
    fix q assume q: "q \<in> H"
    note k = hinv_kids [OF inv q]
    show "kids_ok ?s H ?cs q"
    proof (cases "q = p")
      case True
      have 1: "sibs ?s (Some p) (cs p @ [y])" by (rule sibs_appended [OF kp ne yk])
      have 2: "set (cs p @ [y]) \<subseteq> H" using sp hinv_fl_in [OF inv] y by auto
      from rp have 3: "rank (s p) + 1 = of_nat (length (cs p @ [y]))" by simp
      from cp have 4: "\<forall>c. children (s p) = Some c \<longrightarrow> c \<in> set (cs p @ [y])"
        by auto
      from hinv_kids [OF inv p] ne have 5: "children (s p) \<noteq> None"
        by (auto simp add: kids_ok_def)
      from 1 2 3 4 5 True show ?thesis by (simp add: kids_ok_def rk)
    next
      case False
      have "sibs ?s (Some q) (cs q)"
      proof (rule sibs_frame [where s = s])
        show "sibs s (Some q) (cs q)" using k by (simp add: kids_ok_def)
      next
        fix z assume "z \<in> set (cs q)"
        with hinv_kid_parent [OF inv q] have pz: "parent (s z) = Some q" by simp
        with fy have zy: "z \<noteq> y" by (auto simp add: floating_def)
        moreover from pz pt False have "z \<noteq> ?t" by auto
        ultimately show "left_sibling (?s z) = left_sibling (s z)"
          and "right_sibling (?s z) = right_sibling (s z)"
          and "parent (?s z) = parent (s z)" using out by (simp_all add: par)
      qed
      with k False show ?thesis by (simp add: kids_ok_def rk)
    qed
  next
    fix z assume z: "z \<in> H"
    show "up_ok ?s H rs ?cs ?d (fl - {y}) z"
    proof (cases "z = y")
      case True
      with p py show ?thesis by (simp add: up_ok_def par)
    next
      case False
      show ?thesis
      proof (cases "parent (s z)")
        case None
        with hinv_up [OF inv z] False show ?thesis by (simp add: up_ok_def par)
      next
        case (Some q)
        with pp have zp: "z \<noteq> p" by auto
        from Some hinv_up [OF inv z] have "q \<in> H" "z \<in> set (cs q)" "d q < d z"
          by (simp_all add: up_ok_def)
        with Some False zp show ?thesis by (auto simp add: up_ok_def par)
      qed
    qed
  qed
qed

text \<open>Nodes that an operation does not reach.\<close>

lemma remove_other:
  "z \<noteq> x \<Longrightarrow> parent (s x) \<noteq> Some z \<Longrightarrow> left_sibling (s x) \<noteq> Some z
     \<Longrightarrow> right_sibling (s x) \<noteq> Some z \<Longrightarrow> remove s x z = s z"
  by (cases "parent (s x)"; cases "left_sibling (s x)"; cases "right_sibling (s x)")
     (auto simp add: remove_def Let_def)

lemma appended_other:
  "z \<noteq> t \<Longrightarrow> z \<noteq> y \<Longrightarrow> par \<noteq> Some z \<Longrightarrow> appended s t y par z = s z"
  by (cases par) (auto simp add: appended_def Let_def)

lemma hinv_remove_outside:
  assumes inv: "hinv s H rs cs d fl" and x: "x \<in> H" and z: "z \<notin> H"
  shows "remove s x z = s z"
proof (rule remove_other)
  from x z show "z \<noteq> x" by auto
  show pz: "parent (s x) \<noteq> Some z" using hinv_parent_in [OF inv x] z by auto
  have "\<exists>par xs. sibs s par xs \<and> x \<in> set xs \<and> set xs \<subseteq> H"
  proof (cases "parent (s x)")
    case None
    show ?thesis
    proof (cases "x \<in> fl")
      case True
      from hinv_floating [OF inv True] x show ?thesis
        by (intro exI [of _ None] exI [of _ "[x]"]) (simp add: sibs_singleton_iff floating_def)
    next
      case False
      with hinv_orphan [OF inv x None] hinv_roots [OF inv] hinv_roots_in [OF inv]
      show ?thesis by auto
    qed
  next
    case (Some p)
    from hinv_parent_in [OF inv x Some] have p: "p \<in> H" "x \<in> set (cs p)" by simp_all
    from hinv_kids [OF inv p(1)] p(2) show ?thesis by (auto simp add: kids_ok_def)
  qed
  then obtain par xs where xs: "sibs s par xs" "x \<in> set xs" "set xs \<subseteq> H" by blast
  from sibs_left_in [OF xs(1,2)] xs(3) z show "left_sibling (s x) \<noteq> Some z" by auto
  from sibs_right_in [OF xs(1,2)] xs(3) z show "right_sibling (s x) \<noteq> Some z" by auto
qed

lemma add_child_adopted:
  "children (s p) = None \<Longrightarrow> p \<noteq> y \<Longrightarrow> add_child s p y = Some (adopted s p y)"
  by (auto simp add: add_child_def adopted_def Let_def fun_eq_iff)

lemma adopted_fields:
  assumes "p \<noteq> y"
  shows "parent (adopted s p y z) = (if z = y then Some p else parent (s z))"
    and "left_sibling (adopted s p y z) = (if z = y then None else left_sibling (s z))"
    and "right_sibling (adopted s p y z) = (if z = y then None else right_sibling (s z))"
    and "children (adopted s p y z) = (if z = p then Some y else children (s z))"
    and "rank (adopted s p y z) = (if z = p then 1 else rank (s z))"
    and "val (adopted s p y z) = val (s z)"
    and "state (adopted s p y z) = state (s z)"
    and "index (adopted s p y z) = index (s z)"
  using assms by (simp_all add: adopted_def Let_def)

lemma adopted_other: "z \<noteq> p \<Longrightarrow> z \<noteq> y \<Longrightarrow> adopted s p y z = s z"
  by (simp add: adopted_def Let_def)

lemma sibs_Nil [simp]: "sibs s par []"
  by (simp add: sibs_def)

lemma hinv_adopt:
  assumes inv: "hinv s H rs cs d fl" and y: "y \<in> fl" and p: "p \<in> H"
    and pp: "parent (s p) = None" and py: "p \<noteq> y" and e: "cs p = []"
  shows "hinv (adopted s p y) H rs (cs(p := [y])) (d(p := min (d p) (d y - 1))) (fl - {y})"
proof -
  let ?s = "adopted s p y" and ?cs = "cs(p := [y])" and ?d = "d(p := min (d p) (d y - 1))"
  note f = adopted_fields [OF py, of s]
  from hinv_floating [OF inv y] have fy: "floating s y" .
  show ?thesis
  proof (rule hinvI)
    show "finite H" by (rule hinv_finite [OF inv])
    show "sibs ?s None rs"
    proof (rule sibs_frame [OF hinv_roots [OF inv]])
      fix z assume "z \<in> set rs"
      with hinv_disj [OF inv] y have "z \<noteq> y" by auto
      then show "left_sibling (?s z) = left_sibling (s z)"
        and "right_sibling (?s z) = right_sibling (s z)"
        and "parent (?s z) = parent (s z)" by (simp_all add: f)
    qed
    show "set rs \<subseteq> H" by (rule hinv_roots_in [OF inv])
    show "fl - {y} \<subseteq> H" using hinv_fl_in [OF inv] by auto
    show "set rs \<inter> (fl - {y}) = {}" using hinv_disj [OF inv] by auto
  next
    fix z assume "z \<in> fl - {y}"
    with hinv_floating [OF inv, of z] show "floating ?s z"
      by (simp add: floating_def f)
  next
    fix q assume q: "q \<in> H"
    note k = hinv_kids [OF inv q]
    show "kids_ok ?s H ?cs q"
    proof (cases "q = p")
      case True
      with hinv_fl_in [OF inv] y show ?thesis
        by (auto simp add: kids_ok_def f sibs_singleton_iff)
    next
      case False
      have "sibs ?s (Some q) (cs q)"
      proof (rule sibs_frame [where s = s])
        show "sibs s (Some q) (cs q)" using k by (simp add: kids_ok_def)
      next
        fix z assume "z \<in> set (cs q)"
        with hinv_kid_parent [OF inv q] fy have "z \<noteq> y" by (auto simp add: floating_def)
        then show "left_sibling (?s z) = left_sibling (s z)"
          and "right_sibling (?s z) = right_sibling (s z)"
          and "parent (?s z) = parent (s z)" by (simp_all add: f)
      qed
      with k False show ?thesis by (simp add: kids_ok_def f)
    qed
  next
    fix z assume z: "z \<in> H"
    show "up_ok ?s H rs ?cs ?d (fl - {y}) z"
    proof (cases "z = y")
      case True
      with p py show ?thesis by (simp add: up_ok_def f)
    next
      case False
      show ?thesis
      proof (cases "parent (s z)")
        case None
        with hinv_up [OF inv z] False show ?thesis by (simp add: up_ok_def f)
      next
        case (Some q)
        with pp have zp: "z \<noteq> p" by auto
        from Some hinv_up [OF inv z] have q: "q \<in> H" "z \<in> set (cs q)" "d q < d z"
          by (simp_all add: up_ok_def)
        with e have "q \<noteq> p" by auto
        with q Some False zp show ?thesis by (auto simp add: up_ok_def f)
      qed
    qed
  qed
qed

text \<open>A node from outside enters as a floating node; a floating node without children leaves.\<close>

lemma hinv_enter:
  assumes inv: "hinv s H rs cs d fl" and x: "x \<notin> H" and f: "floating s x"
    and c: "children (s x) = None" and r: "rank (s x) = 0"
  shows "hinv s (insert x H) rs (cs(x := [])) d (insert x fl)"
proof (rule hinvI)
  show "finite (insert x H)" using hinv_finite [OF inv] by simp
  show "sibs s None rs" by (rule hinv_roots [OF inv])
  show "set rs \<subseteq> insert x H" using hinv_roots_in [OF inv] by auto
  show "insert x fl \<subseteq> insert x H" using hinv_fl_in [OF inv] by auto
  show "set rs \<inter> insert x fl = {}" using hinv_disj [OF inv] hinv_roots_in [OF inv] x by auto
next
  fix z assume "z \<in> insert x fl"
  with f hinv_floating [OF inv] show "floating s z" by auto
next
  fix p assume "p \<in> insert x H"
  then show "kids_ok s (insert x H) (cs(x := [])) p"
  proof
    assume "p = x"
    with c r show ?thesis by (simp add: kids_ok_def)
  next
    assume p: "p \<in> H"
    with x have "p \<noteq> x" by auto
    with hinv_kids [OF inv p] show ?thesis by (auto simp add: kids_ok_def)
  qed
next
  fix z assume "z \<in> insert x H"
  then show "up_ok s (insert x H) rs (cs(x := [])) d (insert x fl) z"
  proof
    assume "z = x"
    with f show ?thesis by (simp add: up_ok_def floating_def)
  next
    assume z: "z \<in> H"
    from hinv_up [OF inv z] x show ?thesis by (auto simp add: up_ok_def)
  qed
qed

lemma hinv_leave:
  assumes inv: "hinv s H rs cs d fl" and x: "x \<in> fl" and e: "cs x = []"
  shows "hinv s (H - {x}) rs cs d (fl - {x})"
proof (rule hinvI)
  show "finite (H - {x})" using hinv_finite [OF inv] by simp
  show "sibs s None rs" by (rule hinv_roots [OF inv])
  show "set rs \<subseteq> H - {x}" using hinv_roots_in [OF inv] hinv_disj [OF inv] x by auto
  show "fl - {x} \<subseteq> H - {x}" using hinv_fl_in [OF inv] by auto
  show "set rs \<inter> (fl - {x}) = {}" using hinv_disj [OF inv] by auto
next
  fix z assume "z \<in> fl - {x}"
  with hinv_floating [OF inv] show "floating s z" by auto
next
  fix p assume p: "p \<in> H - {x}"
  then have pH: "p \<in> H" by simp
  from hinv_floating [OF inv x] hinv_kid_parent [OF inv pH, of x]
  have "x \<notin> set (cs p)" by (auto simp add: floating_def)
  with hinv_kids [OF inv pH] show "kids_ok s (H - {x}) cs p"
    by (auto simp add: kids_ok_def)
next
  fix z assume "z \<in> H - {x}"
  then have z: "z \<in> H" "z \<noteq> x" by auto
  from hinv_up [OF inv z(1)] z(2) e hinv_floating [OF inv x]
  show "up_ok s (H - {x}) rs cs d (fl - {x}) z"
    by (auto simp add: up_ok_def)
qed

text \<open>Without roots and floating nodes the heap is empty.\<close>

lemma hinv_empty:
  assumes inv: "hinv s H [] cs d {}"
  shows "H = {}"
proof (rule ccontr)
  assume ne: "H \<noteq> {}"
  from hinv_finite [OF inv] ne have "Min (d ` H) \<in> d ` H" by (intro Min_in) simp_all
  then obtain x where x: "x \<in> H" "d x = Min (d ` H)" by auto
  have least: "d x \<le> d y" if "y \<in> H" for y
    using that hinv_finite [OF inv] x(2) by simp
  show False
  proof (cases "parent (s x)")
    case None
    with hinv_orphan [OF inv x(1)] show False by simp
  next
    case (Some p)
    from hinv_parent_in [OF inv x(1) Some] least [of p] show False by simp
  qed
qed

text \<open>Only the links and the rank matter.\<close>

lemma hinv_cong:
  assumes "\<And>z. parent (s' z) = parent (s z) \<and> left_sibling (s' z) = left_sibling (s z)
              \<and> right_sibling (s' z) = right_sibling (s z)
              \<and> children (s' z) = children (s z) \<and> rank (s' z) = rank (s z)"
    and inv: "hinv s H rs cs d fl"
  shows "hinv s' H rs cs d fl"
proof -
  have sb: "sibs s' par xs" if "sibs s par xs" for par xs
    by (rule sibs_frame [OF that]) (simp_all add: assms(1))
  show ?thesis
  proof (rule hinvI)
    show "finite H" "set rs \<subseteq> H" "fl \<subseteq> H" "set rs \<inter> fl = {}"
      using inv by (simp_all add: hinv_def)
    show "sibs s' None rs" using hinv_roots [OF inv] by (rule sb)
  next
    fix z assume "z \<in> fl"
    from hinv_floating [OF inv this] show "floating s' z" by (simp add: floating_def assms(1))
  next
    fix p assume "p \<in> H"
    from hinv_kids [OF inv this] show "kids_ok s' H cs p"
      by (simp add: kids_ok_def assms(1) sb)
  next
    fix z assume "z \<in> H"
    from hinv_up [OF inv this] show "up_ok s' H rs cs d fl z"
      by (simp add: up_ok_def assms(1))
  qed
qed

section \<open>The operations of the heap\<close>

lemma heap_okI:
  "hinv s H rs cs d {} \<Longrightarrow> (min_node heap = None \<longrightarrow> rs = [])
     \<Longrightarrow> (\<forall>mn. min_node heap = Some mn \<longrightarrow> mn \<in> set rs) \<Longrightarrow> heap_ok (s, heap) H"
  unfolding heap_ok_def by (intro exI [of _ rs] exI [of _ cs] exI [of _ d]) simp

lemma same_data_refl [simp]: "same_data s s"
  by (simp add: same_data_def)

lemma same_data_trans: "same_data s s' \<Longrightarrow> same_data s' s'' \<Longrightarrow> same_data s s''"
  by (simp add: same_data_def)

lemma outside_refl [simp]: "outside H s s"
  by (simp add: outside_def)

lemma outside_trans: "outside H s s' \<Longrightarrow> outside H s' s'' \<Longrightarrow> outside H s s''"
  by (simp add: outside_def)

lemma outside_mono: "outside H s s' \<Longrightarrow> H \<subseteq> H' \<Longrightarrow> outside H' s s'"
  by (auto simp add: outside_def)

lemma same_data_remove [simp]: "same_data s (remove s x)"
  by (simp add: same_data_def)

lemma same_data_appended [simp]: "same_data s (appended s t y par)"
  by (simp add: same_data_def)

lemma same_data_adopted: "p \<noteq> y \<Longrightarrow> same_data s (adopted s p y)"
  by (simp add: same_data_def adopted_fields)

lemma outside_remove: "hinv s H rs cs d fl \<Longrightarrow> x \<in> H \<Longrightarrow> outside H s (remove s x)"
  by (simp add: outside_def hinv_remove_outside)

lemma hinv_float_to_root:
  assumes inv: "hinv s H [] cs d fl" and y: "y \<in> fl"
  shows "hinv s H [y] cs d (fl - {y})"
proof (rule hinvI)
  from hinv_floating [OF inv y] show "sibs s None [y]"
    by (simp add: sibs_singleton_iff floating_def)
  show "finite H" "fl - {y} \<subseteq> H" "set [y] \<subseteq> H" "set [y] \<inter> (fl - {y}) = {}"
    using hinv_finite [OF inv] hinv_fl_in [OF inv] y by auto
next
  fix z assume "z \<in> fl - {y}"
  with hinv_floating [OF inv] show "floating s z" by auto
next
  fix p assume "p \<in> H"
  from hinv_kids [OF inv this] show "kids_ok s H cs p" .
next
  fix z assume "z \<in> H"
  from hinv_up [OF inv this] show "up_ok s H [y] cs d (fl - {y}) z"
    by (auto simp add: up_ok_def)
qed

lemma add_sibling_root:
  assumes inv: "hinv s H rs cs d fl" and y: "y \<in> fl" and n: "n \<in> set rs"
  shows "add_sibling s n y = Some (appended s (last rs) y None)"
proof -
  from n have ne: "rs \<noteq> []" by auto
  from hinv_disj [OF inv] y have yr: "y \<notin> set rs" by auto
  from sibs_rightmost [OF hinv_roots [OF inv] n]
  have "rightmost_sibling s n = Some (last rs)" .
  moreover from ne yr have "last rs \<noteq> y" by (auto dest: last_in_set)
  moreover from n yr have "n \<noteq> y" by auto
  ultimately show ?thesis
    using hinv_root_parent [OF inv n] by (simp add: add_sibling_appended)
qed

lemma outside_appended_root:
  assumes inv: "hinv s H rs cs d fl" and y: "y \<in> fl" and ne: "rs \<noteq> []"
  shows "outside H s (appended s (last rs) y None)"
proof -
  from ne hinv_roots_in [OF inv] have "last rs \<in> H" by (auto dest: last_in_set)
  with hinv_fl_in [OF inv] y show ?thesis
    by (auto simp add: outside_def intro!: appended_other)
qed

text \<open>\<open>add_child\<close> on a node without parent and a floating node.\<close>

lemma appended_parent_set:
  "t \<noteq> y \<Longrightarrow> appended (s(y := (s y)\<lparr>parent := Some p\<rparr>)) t y (Some p) = appended s t y (Some p)"
  by (auto simp add: appended_def Let_def fun_eq_iff)

lemma add_child_ok:
  assumes inv: "hinv s H rs cs d fl" and y: "y \<in> fl" and p: "p \<in> H"
    and pp: "parent (s p) = None" and py: "p \<noteq> y"
  shows "\<exists>s' d'. add_child s p y = Some s'
           \<and> hinv s' H rs (cs(p := cs p @ [y])) d' (fl - {y})
           \<and> same_data s s' \<and> outside H s s'
           \<and> (\<forall>z. z \<noteq> p \<longrightarrow> rank (s' z) = rank (s z))"
proof (cases "children (s p)")
  case None
  with hinv_kids [OF inv p] have e: "cs p = []" by (simp add: kids_ok_def)
  from hinv_adopt [OF inv y p pp py e] e
  have "hinv (adopted s p y) H rs (cs(p := cs p @ [y])) (d(p := min (d p) (d y - 1))) (fl - {y})"
    by simp
  moreover have "outside H s (adopted s p y)"
    using p hinv_fl_in [OF inv] y by (auto simp add: outside_def intro!: adopted_other)
  ultimately show ?thesis
    using add_child_adopted [of s p y, OF None py] same_data_adopted [OF py, of s] py
    by (auto simp add: adopted_fields)
next
  case (Some c)
  let ?s1 = "s(y := (s y)\<lparr>parent := Some p\<rparr>)"
  from hinv_kids [OF inv p] Some have kp: "sibs s (Some p) (cs p)" and c: "c \<in> set (cs p)"
    and sub: "set (cs p) \<subseteq> H"
    by (simp_all add: kids_ok_def)
  then have ne: "cs p \<noteq> []" by auto
  from hinv_floating [OF inv y] sibs_parent [OF kp] have yk: "y \<notin> set (cs p)"
    by (auto simp add: floating_def)
  have "sibs ?s1 (Some p) (cs p)"
    by (rule sibs_frame [OF kp]) (use yk in auto)
  from sibs_rightmost [OF this c] have rm: "rightmost_sibling ?s1 c = Some (last (cs p))" .
  from ne yk have ty: "last (cs p) \<noteq> y" by (auto dest: last_in_set)
  from c yk have cy: "c \<noteq> y" by auto
  from sibs_parent [OF kp c] cy have pc: "parent (?s1 c) = Some p" by simp
  from Some py have "add_child s p y = add_sibling ?s1 c y"
    by (simp add: add_child_def Let_def)
  also from add_sibling_appended [OF rm ty cy] pc
  have "\<dots> = Some (appended ?s1 (last (cs p)) y (Some p))" by simp
  also have "\<dots> = Some (appended s (last (cs p)) y (Some p))"
    by (simp add: appended_parent_set [OF ty])
  finally have eq: "add_child s p y = Some (appended s (last (cs p)) y (Some p))" .
  have "outside H s (appended s (last (cs p)) y (Some p))"
    using p hinv_fl_in [OF inv] y sub ne
    by (auto simp add: outside_def intro!: appended_other dest: last_in_set)
  with eq hinv_append_child [OF inv y p pp py ne] show ?thesis
    by (auto simp add: appended_rank)
qed

text \<open>\<open>insert_node\<close> on a floating node.\<close>

lemma insert_floating:
  assumes inv: "hinv s H rs cs d {y}"
    and mn0: "min_node heap = None \<longrightarrow> rs = []"
    and mn1: "\<forall>mn. min_node heap = Some mn \<longrightarrow> mn \<in> set rs"
  shows "\<exists>s' heap'. insert_node (s, heap) y = Some (s', heap') \<and> heap_ok (s', heap') H
           \<and> same_data s s' \<and> outside H s s'"
proof (cases "min_node heap")
  case None
  with mn0 have rs: "rs = []" by simp
  from hinv_float_to_root [OF inv [unfolded rs]] have "hinv s H [y] cs d {}" by simp
  then have "heap_ok (s, heap\<lparr>min_node := Some y\<rparr>) H"
    by (rule heap_okI) simp_all
  with None show ?thesis by (simp add: insert_node_def)
next
  case (Some mn)
  with mn1 have mn: "mn \<in> set rs" by simp
  then have ne: "rs \<noteq> []" by auto
  let ?s = "appended s (last rs) y None"
  from add_sibling_root [OF inv _ mn] have as: "add_sibling s mn y = Some ?s" by simp
  from hinv_append_root [OF inv _ ne] have inv': "hinv ?s H (rs @ [y]) cs d {}" by simp
  from outside_appended_root [OF inv _ ne] have out: "outside H s ?s" by simp
  from inv' mn have "heap_ok (?s, heap\<lparr>min_node := Some y\<rparr>) H"
    and "heap_ok (?s, heap) H"
    using Some by (auto intro!: heap_okI)
  with Some as out show ?thesis by (auto simp add: insert_node_def)
qed

lemma insert_fresh:
  assumes ok: "heap_ok (s, heap) H" and x: "x \<notin> H" and f: "floating s x"
    and c: "children (s x) = None" and r: "rank (s x) = 0"
  shows "\<exists>s' heap'. insert_node (s, heap) x = Some (s', heap') \<and> heap_ok (s', heap') (insert x H)
           \<and> same_data s s' \<and> outside (insert x H) s s'"
proof -
  from ok obtain rs cs d where inv: "hinv s H rs cs d {}"
    and mn: "min_node heap = None \<longrightarrow> rs = []" "\<forall>mn. min_node heap = Some mn \<longrightarrow> mn \<in> set rs"
    by (auto simp add: heap_ok_def)
  from hinv_enter [OF inv x f c r] have "hinv s (insert x H) rs (cs(x := [])) d {x}" by simp
  from insert_floating [OF this mn] show ?thesis .
qed

text \<open>\<open>decrease_val\<close> on a node of the heap.\<close>

lemma decrease_val_ok:
  assumes ok: "heap_ok (s, heap) H" and x: "x \<in> H"
  shows "\<exists>s' heap'. decrease_val (s, heap) x v = Some (s', heap') \<and> heap_ok (s', heap') H
           \<and> outside H s s'
           \<and> (\<forall>z. state (s' z) = state (s z) \<and> index (s' z) = index (s z)
                  \<and> val (s' z) = (if z = x then v else val (s z)))"
proof -
  let ?s1 = "s(x := (s x)\<lparr>val := v\<rparr>)"
  from ok obtain rs cs d where inv: "hinv s H rs cs d {}"
    and mn: "min_node heap = None \<longrightarrow> rs = []" "\<forall>mn. min_node heap = Some mn \<longrightarrow> mn \<in> set rs"
    by (auto simp add: heap_ok_def)
  have inv1: "hinv ?s1 H rs cs d {}"
    by (rule hinv_cong [OF _ inv]) simp
  have out1: "outside H s ?s1" using x by (auto simp add: outside_def)
  have d1: "\<forall>z. state (?s1 z) = state (s z) \<and> index (?s1 z) = index (s z)
                  \<and> val (?s1 z) = (if z = x then v else val (s z))" by simp
  have ok1: "heap_ok (?s1, heap) H" using inv1 mn by (rule heap_okI)
  show ?thesis
  proof (cases "parent (s x)")
    case None
    with ok1 out1 d1 show ?thesis by (simp add: decrease_val_def Let_def)
  next
    case (Some p)
    show ?thesis
    proof (cases "val (?s1 p) \<ge> v")
      case False
      with Some ok1 out1 d1 show ?thesis by (simp add: decrease_val_def Let_def)
    next
      case True
      from Some have p1: "parent (?s1 x) = Some p" by simp
      have inv2: "hinv (remove ?s1 x) H rs (cs(p := remove1 x (cs p))) d {x}"
        by (rule hinv_remove_child [OF inv1 x p1])
      from insert_floating [OF inv2 mn] obtain s' heap' where
        r: "insert_node (remove ?s1 x, heap) x = Some (s', heap')" "heap_ok (s', heap') H"
           "same_data (remove ?s1 x) s'" "outside H (remove ?s1 x) s'"
        by blast
      from outside_remove [OF inv1 x] out1 r(4) have "outside H s s'"
        by (blast intro: outside_trans)
      moreover from r(3) have "\<forall>z. state (s' z) = state (s z) \<and> index (s' z) = index (s z)
                  \<and> val (s' z) = (if z = x then v else val (s z))"
        by (simp add: same_data_def)
      ultimately show ?thesis using r(1,2) Some True
        by (simp add: decrease_val_def Let_def)
    qed
  qed
qed

section \<open>Linking the roots\<close>

lemma yieldsI: "r = Some y \<Longrightarrow> Q y \<Longrightarrow> yields B r Q"
  by (simp add: yields_def)

lemma yields_overflow: "r = None \<Longrightarrow> \<not> B \<Longrightarrow> yields B r Q"
  by (simp add: yields_def)

lemma yieldsD: "yields B r Q \<Longrightarrow> r = Some y \<Longrightarrow> Q y"
  by (simp add: yields_def)

lemma yields_returns: "yields B r Q \<Longrightarrow> B \<Longrightarrow> \<exists>y. r = Some y \<and> Q y"
  by (cases r) (simp_all add: yields_def)

lemma yields_cases:
  assumes "yields B r Q"
  obtains (returns) y where "r = Some y" "Q y" | (overflow) "r = None" "\<not> B"
  using assms by (cases r) (simp_all add: yields_def)

lemma yields_mono:
  assumes "yields B r Q" and "\<And>y. r = Some y \<Longrightarrow> Q y \<Longrightarrow> Q' y" and "B' \<Longrightarrow> B"
  shows "yields B' r Q'"
  using assms by (cases r) (auto simp add: yields_def)

lemma yields_bind:
  assumes "yields B r Q" and "\<And>y. r = Some y \<Longrightarrow> Q y \<Longrightarrow> yields B (g y) R"
  shows "yields B (Option.bind r g) R"
  using assms by (cases r) (auto simp add: yields_def)

text \<open>The rank of a node of the heap is below the number of nodes.\<close>

lemma rank_below_card:
  assumes inv: "hinv s H rs cs d fl" and x: "x \<in> H"
  shows "unat (rank (s x)) < card H"
proof -
  from hinv_kids [OF inv x] have k: "sibs s (Some x) (cs x)" "set (cs x) \<subseteq> H"
    "rank (s x) = of_nat (length (cs x))"
    by (simp_all add: kids_ok_def)
  have "x \<notin> set (cs x)"
  proof
    assume "x \<in> set (cs x)"
    from hinv_kid_parent [OF inv x this] hinv_not_own_parent [OF inv x] show False by simp
  qed
  with k(2) have "set (cs x) \<subseteq> H - {x}" by auto
  with hinv_finite [OF inv] have "card (set (cs x)) \<le> card (H - {x})"
    by (intro card_mono) simp_all
  also from hinv_finite [OF inv] x have "\<dots> < card H"
    by (intro card_Diff1_less) simp_all 
  finally have "length (cs x) < card H"
    using sibs_distinct [OF k(1)] by (simp add: distinct_card)
  moreover have "unat (rank (s x)) \<le> length (cs x)"
    by (simp add: k(3) unat_of_nat)
  ultimately show ?thesis by simp
qed

lemma hinv_distinct_roots: "hinv s H rs cs d fl \<Longrightarrow> distinct rs"
  by (auto dest: hinv_roots sibs_distinct)

lemma rank_remove_root:
  "hinv s H rs cs d fl \<Longrightarrow> x \<in> set rs \<Longrightarrow> rank (remove s x z) = rank (s z)"
  by (simp add: remove_rank hinv_root_parent)

text \<open>
  One merge: the loser leaves the list of roots and becomes a child of the winner.
\<close>

lemma merge_ok:
  assumes inv: "hinv s H (pre @ post) cs d {}"
    and w: "w \<in> set pre" and l: "l \<in> set pre" and wl: "w \<noteq> l"
  shows "\<exists>s' cs' d'. add_child (remove s l) w l = Some s'
           \<and> hinv s' H (remove1 l pre @ post) cs' d' {}
           \<and> same_data s s' \<and> outside H s s'
           \<and> (\<forall>z. z \<noteq> w \<longrightarrow> rank (s' z) = rank (s z))"
proof -
  from l have lr: "l \<in> set (pre @ post)" by simp
  from hinv_remove_root [OF inv lr] l
  have inv1: "hinv (remove s l) H (remove1 l pre @ post) cs d {l}"
    by (simp add: remove1_append)
  from w wl have w1: "w \<in> set (remove1 l pre @ post)" by simp
  from hinv_roots_in [OF inv1] w1 have wH: "w \<in> H" by auto
  from hinv_roots_in [OF inv] lr have lH: "l \<in> H" by auto
  from add_child_ok [OF inv1 _ wH hinv_root_parent [OF inv1 w1] wl]
  obtain s' d' where r: "add_child (remove s l) w l = Some s'"
    "hinv s' H (remove1 l pre @ post) (cs(w := cs w @ [l])) d' {}"
    "same_data (remove s l) s'" "outside H (remove s l) s'"
    "\<forall>z. z \<noteq> w \<longrightarrow> rank (s' z) = rank (remove s l z)"
    by auto
  from r(3) have "same_data s s'" by (simp add: same_data_def)
  moreover from outside_remove [OF inv lH] r(4) have "outside H s s'"
    by (rule outside_trans)
  moreover from r(5) have "\<forall>z. z \<noteq> w \<longrightarrow> rank (s' z) = rank (s z)"
    by (simp add: rank_remove_root [OF inv lr])
  ultimately show ?thesis using r(1,2) by blast
qed

lemma link_ok:
  assumes inv: "hinv s H (pre @ post) cs d {}"
    and node: "node \<in> set pre"
    and bk: "buckets_ok s heap (set pre - {node})"
    and mn: "min_node heap = Some mn" "mn \<in> set pre" "\<forall>z\<in>set pre. val (s mn) \<le> val (s z)"
  shows "yields (card H \<le> 100) (link (s, heap) node)
           (\<lambda>m'. \<exists>pre' cs' d'. hinv (fst m') H (pre' @ post) cs' d' {}
              \<and> set pre' \<subseteq> set pre \<and> buckets_ok (fst m') (snd m') (set pre')
              \<and> min_node (snd m') = Some mn \<and> mn \<in> set pre'
              \<and> same_data s (fst m') \<and> outside H s (fst m'))"
  using assms
proof (induction "length pre" arbitrary: s heap pre cs d node rule: less_induct)
  case less
  note inv = less.prems(1) and node = less.prems(2) and bk = less.prems(3)
    and mn = less.prems(4,5,6)
  let ?r = "unat (rank (s node))"
  from hinv_roots_in [OF inv] node have nH: "node \<in> H" by auto
  show ?case
  proof (cases "100 \<le> ?r")
    case True
    then have "link (s, heap) node = None"
      by (simp add: link.simps [of "(s, heap)" node])
    moreover from True rank_below_card [OF inv nH] have "\<not> card H \<le> 100" by simp
    ultimately show ?thesis by (rule yields_overflow)
  next
    case inside: False
    show ?thesis
    proof (cases "roots_by_rank heap ?r")
      case None
      let ?heap' = "heap\<lparr>roots_by_rank := (roots_by_rank heap)(?r := Some node)\<rparr>"
      from None inside have "link (s, heap) node = Some (s, ?heap')"
        by (simp add: link.simps [of "(s, heap)" node])
      moreover from bk node have "buckets_ok s ?heap' (set pre)"
        by (auto simp add: buckets_ok_def)
      with inv mn have "\<exists>pre' cs' d'. hinv (fst (s, ?heap')) H (pre' @ post) cs' d' {}
              \<and> set pre' \<subseteq> set pre \<and> buckets_ok (fst (s, ?heap')) (snd (s, ?heap')) (set pre')
              \<and> min_node (snd (s, ?heap')) = Some mn \<and> mn \<in> set pre'
              \<and> same_data s (fst (s, ?heap')) \<and> outside H s (fst (s, ?heap'))"
        by (intro exI [of _ pre] exI [of _ cs] exI [of _ d]) simp
      ultimately show ?thesis by (rule yieldsI)
    next
      case (Some l)
      let ?heap1 = "heap\<lparr>roots_by_rank := (roots_by_rank heap)(?r := None)\<rparr>"
      from inside have lt: "?r < 100" by simp
      from bk [unfolded buckets_ok_def, rule_format, OF lt Some]
      have l: "l \<in> set pre" "l \<noteq> node" "unat (rank (s l)) = ?r"
        by auto
      have occ: "x \<in> set pre \<and> x \<noteq> node \<and> x \<noteq> l \<and> unat (rank (s x)) = r"
        if "roots_by_rank ?heap1 r = Some x" "r < 100" for r x
      proof -
        from that have r: "r \<noteq> ?r" "roots_by_rank heap r = Some x" by (auto split: if_splits)
        with bk that(2) have x: "x \<in> set pre" "x \<noteq> node" "unat (rank (s x)) = r"
          by (auto simp add: buckets_ok_def)
        with r(1) l(3) show ?thesis by auto
      qed
      show ?thesis
      proof (cases "val (s node) < val (s l) \<or> min_node heap = Some node")
        case True
        from merge_ok [OF inv node l(1)] l(2) obtain s2 cs2 d2 where
          m: "add_child (remove s l) node l = Some s2"
             "hinv s2 H (remove1 l pre @ post) cs2 d2 {}"
             "same_data s s2" "outside H s s2"
             "\<forall>z. z \<noteq> node \<longrightarrow> rank (s2 z) = rank (s z)"
          by auto
        from l(1) have len: "length (remove1 l pre) < length pre"
          by (simp add: length_remove1) (cases pre; simp)
        from node l(2) have node2: "node \<in> set (remove1 l pre)" by simp
        from hinv_distinct_roots [OF inv] have dp: "distinct pre" by simp
        have bk2: "buckets_ok s2 ?heap1 (set (remove1 l pre) - {node})"
          unfolding buckets_ok_def
        proof (intro allI impI)
          fix r x assume "r < 100" "roots_by_rank ?heap1 r = Some x"
          from occ [OF this(2,1)] m(5) dp
          show "x \<in> set (remove1 l pre) - {node} \<and> unat (rank (s2 x)) = r" by simp
        qed
        have mnl: "mn \<noteq> l"
        proof
          assume e: "mn = l"
          with mn(3) node have "val (s l) \<le> val (s node)" by auto
          with True mn(1) e l(2) show False by auto
        qed
        with mn(2) dp have mn2: "mn \<in> set (remove1 l pre)" by simp
        from m(3) mn(3) dp have min2: "\<forall>z\<in>set (remove1 l pre). val (s2 mn) \<le> val (s2 z)"
          by (auto simp add: same_data_def)
        from mn(1) have mh: "min_node ?heap1 = Some mn" by simp
        from Some True m(1) inside
        have eq: "link (s, heap) node = link (s2, ?heap1) node"
          by (simp add: link.simps [of "(s, heap)" node] Let_def)
        show ?thesis
          unfolding eq
        proof (rule yields_mono [OF less.hyps [OF len m(2) node2 bk2 mh mn2 min2]])
          fix y
          assume "\<exists>pre' cs' d'. hinv (fst y) H (pre' @ post) cs' d' {}
              \<and> set pre' \<subseteq> set (remove1 l pre) \<and> buckets_ok (fst y) (snd y) (set pre')
              \<and> min_node (snd y) = Some mn \<and> mn \<in> set pre'
              \<and> same_data s2 (fst y) \<and> outside H s2 (fst y)"
          then obtain pre' cs' d' where
            r: "hinv (fst y) H (pre' @ post) cs' d' {}"
               "set pre' \<subseteq> set (remove1 l pre)" "buckets_ok (fst y) (snd y) (set pre')"
               "min_node (snd y) = Some mn" "mn \<in> set pre'"
               "same_data s2 (fst y)" "outside H s2 (fst y)"
            by blast
          from r(2) have "set pre' \<subseteq> set pre"
            using set_remove1_subset by fastforce
          moreover from m(3) r(6) have "same_data s (fst y)" by (rule same_data_trans)
          moreover from m(4) r(7) have "outside H s (fst y)" by (rule outside_trans)
          ultimately show "\<exists>pre' cs' d'. hinv (fst y) H (pre' @ post) cs' d' {}
              \<and> set pre' \<subseteq> set pre \<and> buckets_ok (fst y) (snd y) (set pre')
              \<and> min_node (snd y) = Some mn \<and> mn \<in> set pre'
              \<and> same_data s (fst y) \<and> outside H s (fst y)"
            using r(1,3,4,5) by blast
        qed
      next
        case False
        from merge_ok [OF inv l(1) node] l(2) obtain s2 cs2 d2 where
          m: "add_child (remove s node) l node = Some s2"
             "hinv s2 H (remove1 node pre @ post) cs2 d2 {}"
             "same_data s s2" "outside H s s2"
             "\<forall>z. z \<noteq> l \<longrightarrow> rank (s2 z) = rank (s z)"
          by auto
        from node have len: "length (remove1 node pre) < length pre"
          by (simp add: length_remove1) (cases pre; simp)
        from l have l2: "l \<in> set (remove1 node pre)" by simp
        from hinv_distinct_roots [OF inv] have dp: "distinct pre" by simp
        have bk2: "buckets_ok s2 ?heap1 (set (remove1 node pre) - {l})"
          unfolding buckets_ok_def
        proof (intro allI impI)
          fix r x assume "r < 100" "roots_by_rank ?heap1 r = Some x"
          from occ [OF this(2,1)] m(5) dp
          show "x \<in> set (remove1 node pre) - {l} \<and> unat (rank (s2 x)) = r" by simp
        qed
        from False mn have "mn \<noteq> node" by auto
        with mn(2) dp have mn2: "mn \<in> set (remove1 node pre)" by simp
        from m(3) mn(3) dp have min2: "\<forall>z\<in>set (remove1 node pre). val (s2 mn) \<le> val (s2 z)"
          by (auto simp add: same_data_def)
        from mn(1) have mh: "min_node ?heap1 = Some mn" by simp
        from Some False m(1) inside
        have eq: "link (s, heap) node = link (s2, ?heap1) l"
          by (simp add: link.simps [of "(s, heap)" node] Let_def)
        show ?thesis
          unfolding eq
        proof (rule yields_mono [OF less.hyps [OF len m(2) l2 bk2 mh mn2 min2]])
          fix y
          assume "\<exists>pre' cs' d'. hinv (fst y) H (pre' @ post) cs' d' {}
              \<and> set pre' \<subseteq> set (remove1 node pre) \<and> buckets_ok (fst y) (snd y) (set pre')
              \<and> min_node (snd y) = Some mn \<and> mn \<in> set pre'
              \<and> same_data s2 (fst y) \<and> outside H s2 (fst y)"
          then obtain pre' cs' d' where
            r: "hinv (fst y) H (pre' @ post) cs' d' {}"
               "set pre' \<subseteq> set (remove1 node pre)" "buckets_ok (fst y) (snd y) (set pre')"
               "min_node (snd y) = Some mn" "mn \<in> set pre'"
               "same_data s2 (fst y)" "outside H s2 (fst y)"
            by blast
          from r(2) have "set pre' \<subseteq> set pre"
            using set_remove1_subset by fastforce
          moreover from m(3) r(6) have "same_data s (fst y)" by (rule same_data_trans)
          moreover from m(4) r(7) have "outside H s (fst y)" by (rule outside_trans)
          ultimately show "\<exists>pre' cs' d'. hinv (fst y) H (pre' @ post) cs' d' {}
              \<and> set pre' \<subseteq> set pre \<and> buckets_ok (fst y) (snd y) (set pre')
              \<and> min_node (snd y) = Some mn \<and> mn \<in> set pre'
              \<and> same_data s (fst y) \<and> outside H s (fst y)"
            using r(1,3,4,5) by blast
        qed
      qed
    qed
  qed
qed

section \<open>Extracting the minimum\<close>

lemma relink_ok:
  assumes inv: "hinv s H (pre @ post) cs d {}"
    and bk: "buckets_ok s heap (set pre)"
    and mn: "min_node heap = Some mn"
    and mc: "(pre = [] \<and> post \<noteq> [] \<and> mn = hd post)
             \<or> (mn \<in> set pre \<and> (\<forall>z\<in>set pre. val (s mn) \<le> val (s z)))"
  shows "yields (card H \<le> 100)
           (relink (s, heap) (case post of [] \<Rightarrow> None | b # _ \<Rightarrow> Some b))
           (\<lambda>m'. \<exists>rs' cs' d' mn'. hinv (fst m') H rs' cs' d' {}
              \<and> min_node (snd m') = Some mn' \<and> mn' \<in> set rs'
              \<and> same_data s (fst m') \<and> outside H s (fst m'))"
  using assms
proof (induction post arbitrary: s heap pre cs d mn)
  case Nil
  from Nil.prems(4) have "mn \<in> set (pre @ [])" by auto
  with Nil.prems(1,3) show ?case
    by (intro yieldsI [of _ "(s, heap)"]) (auto simp add: relink.simps [of "(s, heap)" None])
next
  case (Cons t post')
  note inv = Cons.prems(1) and bk = Cons.prems(2) and mn = Cons.prems(3) and mc = Cons.prems(4)
  let ?heap1 = "if val (s t) < val (s mn) then heap\<lparr>min_node := Some t\<rparr> else heap"
  let ?mn1 = "if val (s t) < val (s mn) then t else mn"
  let ?next = "case post' of [] \<Rightarrow> None | b # _ \<Rightarrow> Some b"
  from hinv_distinct_roots [OF inv] have tp: "t \<notin> set pre" by auto
  from sibs_neighbours(2) [OF hinv_roots [OF inv]]
  have rt: "right_sibling (s t) = ?next" .
  from inv have inv1: "hinv s H ((pre @ [t]) @ post') cs d {}" by simp
  have t1: "t \<in> set (pre @ [t])" by simp
  from bk tp have bk1: "buckets_ok s ?heap1 (set (pre @ [t]) - {t})"
    by (auto simp add: buckets_ok_def)
  from mn have m1: "min_node ?heap1 = Some ?mn1" by simp
  from mc have m2: "?mn1 \<in> set (pre @ [t])" by auto
  have m3: "\<forall>z\<in>set (pre @ [t]). val (s ?mn1) \<le> val (s z)"
  proof (cases "val (s t) < val (s mn)")
    case True
    with mc show ?thesis by auto
  next
    case False
    with mc show ?thesis by auto
  qed
  from mn rt
  have eq: "relink (s, heap) (case t # post' of [] \<Rightarrow> None | b # _ \<Rightarrow> Some b)
              = Option.bind (link (s, ?heap1) t) (\<lambda>m1. relink m1 ?next)"
    by (simp add: relink.simps [of "(s, heap)" "Some t"] Let_def)
  show ?case
    unfolding eq
  proof (rule yields_bind [OF link_ok [OF inv1 t1 bk1 m1 m2 m3]])
    fix y :: memory
    assume "\<exists>pre' cs' d'. hinv (fst y) H (pre' @ post') cs' d' {}
              \<and> set pre' \<subseteq> set (pre @ [t]) \<and> buckets_ok (fst y) (snd y) (set pre')
              \<and> min_node (snd y) = Some ?mn1 \<and> ?mn1 \<in> set pre'
              \<and> same_data s (fst y) \<and> outside H s (fst y)"
    then obtain pre1 cs1 d1 where
      l: "hinv (fst y) H (pre1 @ post') cs1 d1 {}"
         "set pre1 \<subseteq> set (pre @ [t])" "buckets_ok (fst y) (snd y) (set pre1)"
         "min_node (snd y) = Some ?mn1" "?mn1 \<in> set pre1"
         "same_data s (fst y)" "outside H s (fst y)"
      by blast
    from l(2,6) m3 have "\<forall>z\<in>set pre1. val (fst y ?mn1) \<le> val (fst y z)"
      by (auto simp add: same_data_def)
    with l(5) have mc1: "(pre1 = [] \<and> post' \<noteq> [] \<and> ?mn1 = hd post')
               \<or> (?mn1 \<in> set pre1 \<and> (\<forall>z\<in>set pre1. val (fst y ?mn1) \<le> val (fst y z)))"
      by simp
    from Cons.IH [OF l(1) l(3) l(4) mc1]
    have "yields (card H \<le> 100) (relink (fst y, snd y) ?next)
           (\<lambda>m'. \<exists>rs' cs' d' mn'. hinv (fst m') H rs' cs' d' {}
              \<and> min_node (snd m') = Some mn' \<and> mn' \<in> set rs'
              \<and> same_data (fst y) (fst m') \<and> outside H (fst y) (fst m'))" .
    then show "yields (card H \<le> 100) (relink y ?next)
           (\<lambda>m'. \<exists>rs' cs' d' mn'. hinv (fst m') H rs' cs' d' {}
              \<and> min_node (snd m') = Some mn' \<and> mn' \<in> set rs'
              \<and> same_data s (fst m') \<and> outside H s (fst m'))"
      using l(6,7)
      by (auto elim!: yields_mono intro: same_data_trans outside_trans)
  qed
qed

lemma promote_children_ok:
  assumes inv: "hinv s H rs cs d {}" and mn: "mn \<in> set rs" and ks: "cs mn = ks"
  shows "\<exists>s'. promote_children s mn (case ks of [] \<Rightarrow> None | k # _ \<Rightarrow> Some k) = Some s'
           \<and> hinv s' H (rs @ ks) (cs(mn := [])) d {}
           \<and> same_data s s' \<and> outside H s s'"
  using assms
proof (induction ks arbitrary: s rs cs)
  case Nil
  from Nil.prems(3) have "cs(mn := []) = cs" by auto
  with Nil.prems(1) show ?case
    by (simp add: promote_children.simps [of s mn None])
next
  case (Cons k ks')
  note inv = Cons.prems(1) and mn = Cons.prems(2) and ks = Cons.prems(3)
  from hinv_roots_in [OF inv] mn have mH: "mn \<in> H" by auto
  from hinv_kids [OF inv mH] ks have kp: "sibs s (Some mn) ([] @ k # ks')" and kH: "k \<in> H"
    by (simp_all add: kids_ok_def)
  from sibs_neighbours(2) [OF kp]
  have rk: "right_sibling (s k) = (case ks' of [] \<Rightarrow> None | b # _ \<Rightarrow> Some b)" .
  from sibs_parent [OF kp] have pk: "parent (s k) = Some mn" by simp
  let ?s1 = "remove s k" and ?cs1 = "cs(mn := ks')"
  from hinv_remove_child [OF inv kH pk] ks
  have inv1: "hinv ?s1 H rs ?cs1 d {k}" by simp
  from mn have ne: "rs \<noteq> []" by auto
  let ?s2 = "appended ?s1 (last rs) k None"
  from add_sibling_root [OF inv1 _ mn] have as: "add_sibling ?s1 mn k = Some ?s2" by simp
  from hinv_append_root [OF inv1 _ ne] have inv2: "hinv ?s2 H (rs @ [k]) ?cs1 d {}" by simp
  have mn2: "mn \<in> set (rs @ [k])" using mn by simp
  have ks2: "?cs1 mn = ks'" by simp
  from Cons.IH [OF inv2 mn2 ks2] obtain s' where
    r: "promote_children ?s2 mn (case ks' of [] \<Rightarrow> None | k # _ \<Rightarrow> Some k) = Some s'"
       "hinv s' H ((rs @ [k]) @ ks') (?cs1(mn := [])) d {}"
       "same_data ?s2 s'" "outside H ?s2 s'"
    by blast
  from as r(1) rk
  have "promote_children s mn (case k # ks' of [] \<Rightarrow> None | k # _ \<Rightarrow> Some k) = Some s'"
    by (simp add: promote_children.simps [of s mn "Some k"] Let_def)
  moreover from r(2) have "hinv s' H (rs @ k # ks') (cs(mn := [])) d {}" by simp
  moreover from r(3) have "same_data s s'" by (simp add: same_data_def)
  moreover from outside_remove [OF inv kH] outside_appended_root [OF inv1 _ ne] r(4)
  have "outside H s s'" by (blast intro: outside_trans)
  ultimately show ?case by blast
qed

lemma hinv_root_to_float:
  assumes inv: "hinv s H [x] cs d {}"
  shows "hinv s H [] cs d {x}"
proof (rule hinvI)
  show "finite H" "set [] \<subseteq> H" "{x} \<subseteq> H" "set [] \<inter> {x} = {}" "sibs s None []"
    using hinv_finite [OF inv] hinv_roots_in [OF inv] by auto
next
  fix z assume "z \<in> {x}"
  with hinv_roots [OF inv] show "floating s z"
    by (simp add: sibs_singleton_iff floating_def)
next
  fix p assume "p \<in> H"
  from hinv_kids [OF inv this] show "kids_ok s H cs p" .
next
  fix z assume "z \<in> H"
  from hinv_up [OF inv this] show "up_ok s H [] cs d {x} z"
    by (auto simp add: up_ok_def)
qed

lemma remove_min_relink_ok:
  assumes inv: "hinv s H rs cs d {}" and mn: "mn \<in> set rs" and e: "cs mn = []"
    and ne: "remove1 mn rs \<noteq> []" and t: "temp = hd (remove1 mn rs)"
  shows "yields (card H \<le> 100) (remove_min_relink (s, heap) mn temp)
           (\<lambda>r. \<exists>s' heap'. r = (mn, (s', heap'))
              \<and> heap_ok (s', heap') (H - {mn}) \<and> same_data s s' \<and> outside H s s'
              \<and> unlinked s' mn)"
proof -
  let ?s1 = "remove s mn" and ?rs = "remove1 mn rs"
  let ?heap2 = "heap\<lparr>min_node := Some temp,
                     roots_by_rank := clear_roots_by_rank (roots_by_rank heap)\<rparr>"
  from hinv_roots_in [OF inv] mn have mH: "mn \<in> H" by auto
  from hinv_kids [OF inv mH] e have c0: "children (s mn) = None" "rank (s mn) = 0"
    by (auto simp add: kids_ok_def)
  from hinv_remove_root [OF inv mn] have "hinv ?s1 H ?rs cs d {mn}" by simp
  from hinv_leave [OF this _ e] have inv1: "hinv ?s1 (H - {mn}) ([] @ ?rs) cs d {}" by simp
  have bk: "buckets_ok ?s1 ?heap2 (set [])"
    by (simp add: buckets_ok_def clear_roots_by_rank_apply)
  have m: "min_node ?heap2 = Some temp" by simp
  from ne t have mc: "([] = [] \<and> ?rs \<noteq> [] \<and> temp = hd ?rs)
       \<or> (temp \<in> set [] \<and> (\<forall>z\<in>set []. val (?s1 temp) \<le> val (?s1 z)))" by simp
  from ne t have nx: "(case ?rs of [] \<Rightarrow> None | b # _ \<Rightarrow> Some b) = Some temp"
    by (cases ?rs) simp_all
  have eq: "remove_min_relink (s, heap) mn temp
              = Option.bind (relink (?s1, ?heap2) (Some temp)) (\<lambda>m1. Some (mn, m1))"
    by (simp add: remove_min_relink_def Let_def)
  have le: "card (H - {mn}) \<le> 100" if "card H \<le> 100"
    using that hinv_finite [OF inv] card_Diff_subset_Int [of H "{mn}"]
    by (meson card_mono Diff_subset le_trans)
  have "yields (card (H - {mn}) \<le> 100) (remove_min_relink (s, heap) mn temp)
           (\<lambda>r. \<exists>s' heap'. r = (mn, (s', heap'))
              \<and> heap_ok (s', heap') (H - {mn}) \<and> same_data s s' \<and> outside H s s'
              \<and> unlinked s' mn)"
    unfolding eq
  proof (rule yields_bind [OF relink_ok [OF inv1 bk m mc, unfolded nx]])
    fix y :: memory
    assume "\<exists>rs' cs' d' mn'. hinv (fst y) (H - {mn}) rs' cs' d' {}
              \<and> min_node (snd y) = Some mn' \<and> mn' \<in> set rs'
              \<and> same_data ?s1 (fst y) \<and> outside (H - {mn}) ?s1 (fst y)"
    then obtain rs' cs' d' mn' where
      r: "hinv (fst y) (H - {mn}) rs' cs' d' {}" "min_node (snd y) = Some mn'" "mn' \<in> set rs'"
         "same_data ?s1 (fst y)" "outside (H - {mn}) ?s1 (fst y)"
      by blast
    from r(1,2,3) have "heap_ok (fst y, snd y) (H - {mn})"
      by (intro heap_okI [where rs = rs']) auto
    moreover from r(4) have "same_data s (fst y)" by (simp add: same_data_def)
    moreover from outside_remove [OF inv mH] r(5) have "outside H s (fst y)"
      by (auto simp add: outside_def)
    moreover from r(5) have "fst y mn = ?s1 mn" by (simp add: outside_def)
    with c0 hinv_root_parent [OF inv mn] have "unlinked (fst y) mn"
      by (simp add: unlinked_def remove_parent remove_left remove_right remove_children
          remove_rank)
    ultimately show "yields (card (H - {mn}) \<le> 100) (Some (mn, y))
           (\<lambda>r. \<exists>s' heap'. r = (mn, (s', heap'))
              \<and> heap_ok (s', heap') (H - {mn}) \<and> same_data s s' \<and> outside H s s'
              \<and> unlinked s' mn)"
      by (intro yieldsI [OF refl] exI [of _ "fst y"] exI [of _ "snd y"]) simp
  qed
  then show ?thesis by (rule yields_mono) (simp_all add: le)
qed

lemma remove_min_promote:
  assumes inv: "hinv s H rs cs d {}" and mn: "mn \<in> set rs"
  shows "\<exists>s1 rs1 cs1.
           (case children (s mn) of
              None \<Rightarrow> Some s
            | Some c \<Rightarrow>
                do {
                  temp \<leftarrow> leftmost_sibling s c;
                  s' \<leftarrow> promote_children s mn (Some temp);
                  Some (s'(mn := (s' mn)\<lparr>children := None\<rparr>))
                }) = Some s1
           \<and> hinv s1 H rs1 cs1 d {} \<and> mn \<in> set rs1 \<and> cs1 mn = []
           \<and> same_data s s1 \<and> outside H s s1"
proof (cases "children (s mn)")
  case None
  from hinv_roots_in [OF inv] mn have mH: "mn \<in> H" by auto
  from hinv_kids [OF inv mH] None have "cs mn = []" by (simp add: kids_ok_def)
  with None inv mn show ?thesis
    by (intro exI [of _ s] exI [of _ rs] exI [of _ cs]) simp
next
  case (Some c)
  from hinv_roots_in [OF inv] mn have mH: "mn \<in> H" by auto
  from hinv_kids [OF inv mH] Some have kp: "sibs s (Some mn) (cs mn)" and c: "c \<in> set (cs mn)"
    by (simp_all add: kids_ok_def)
  from sibs_leftmost [OF kp c] have lm: "leftmost_sibling s c = Some (hd (cs mn))" .
  from c have "(case cs mn of [] \<Rightarrow> None | k # _ \<Rightarrow> Some k) = Some (hd (cs mn))"
    by (cases "cs mn") simp_all
  with promote_children_ok [OF inv mn refl] obtain s' where
    p: "promote_children s mn (Some (hd (cs mn))) = Some s'"
       "hinv s' H (rs @ cs mn) (cs(mn := [])) d {}"
       "same_data s s'" "outside H s s'"
    by auto
  let ?s1 = "s'(mn := (s' mn)\<lparr>children := None\<rparr>)"
  from hinv_kids [OF p(2) mH] have c0: "children (s' mn) = None"
    by (cases "children (s' mn)") (simp_all add: kids_ok_def)
  have "hinv ?s1 H (rs @ cs mn) (cs(mn := [])) d {}"
    by (rule hinv_cong [OF _ p(2)]) (simp add: c0)
  moreover from p(3) have "same_data s ?s1" by (simp add: same_data_def)
  moreover from p(4) mH have "outside H s ?s1" by (auto simp add: outside_def)
  ultimately show ?thesis using Some lm p(1) mn
    by (intro exI [of _ ?s1] exI [of _ "rs @ cs mn"] exI [of _ "cs(mn := [])"]) simp
qed

lemma remove_min_ok:
  assumes ok: "heap_ok (s, heap) H" and mn: "min_node heap = Some mn"
  shows "yields (card H \<le> 100) (remove_min (s, heap))
           (\<lambda>r. \<exists>s' heap'. r = (mn, (s', heap'))
              \<and> mn \<in> H \<and> heap_ok (s', heap') (H - {mn})
              \<and> same_data s s' \<and> outside H s s' \<and> unlinked s' mn)"
proof -
  from ok mn obtain rs cs d where inv: "hinv s H rs cs d {}" and mr: "mn \<in> set rs"
    by (auto simp add: heap_ok_def)
  from hinv_roots_in [OF inv] mr have mH: "mn \<in> H" by auto
  from remove_min_promote [OF inv mr] obtain s1 rs1 cs1 where
    p: "(case children (s mn) of
              None \<Rightarrow> Some s
            | Some c \<Rightarrow>
                do {
                  temp \<leftarrow> leftmost_sibling s c;
                  s' \<leftarrow> promote_children s mn (Some temp);
                  Some (s'(mn := (s' mn)\<lparr>children := None\<rparr>))
                }) = Some s1"
    and inv1: "hinv s1 H rs1 cs1 d {}" and m1: "mn \<in> set rs1" and e: "cs1 mn = []"
    and sd: "same_data s s1" and out: "outside H s s1"
    by blast
  note roots = hinv_roots [OF inv1]
  from sibs_leftmost [OF roots m1] have lm: "leftmost_sibling s1 mn = Some (hd rs1)" .
  from m1 obtain h rest where rs1: "rs1 = h # rest" by (cases rs1) auto
  have step: "remove_min (s, heap) =
      (if hd rs1 = mn
       then (case right_sibling (s1 mn) of
               Some r \<Rightarrow> remove_min_relink (s1, heap) mn r
             | None \<Rightarrow> Some (mn, (s1, heap\<lparr>min_node := None\<rparr>)))
       else remove_min_relink (s1, heap) mn (hd rs1))"
    using mn p lm by (simp add: remove_min_def)
  have fin: "yields (card H \<le> 100) (remove_min_relink (s1, heap) mn temp)
           (\<lambda>r. \<exists>s' heap'. r = (mn, (s', heap'))
              \<and> mn \<in> H \<and> heap_ok (s', heap') (H - {mn})
              \<and> same_data s s' \<and> outside H s s' \<and> unlinked s' mn)"
    if "remove1 mn rs1 \<noteq> []" "temp = hd (remove1 mn rs1)" for temp
  proof (rule yields_mono [OF remove_min_relink_ok [OF inv1 m1 e that, of heap]])
    fix y :: "nat \<times> memory"
    assume "\<exists>s' heap'. y = (mn, (s', heap'))
              \<and> heap_ok (s', heap') (H - {mn}) \<and> same_data s1 s' \<and> outside H s1 s'
              \<and> unlinked s' mn"
    with sd out mH show "\<exists>s' heap'. y = (mn, (s', heap'))
              \<and> mn \<in> H \<and> heap_ok (s', heap') (H - {mn})
              \<and> same_data s s' \<and> outside H s s' \<and> unlinked s' mn"
      by (blast intro: same_data_trans outside_trans)
  qed simp
  show ?thesis
  proof (cases "hd rs1 = mn")
    case False
    with rs1 have "remove1 mn rs1 \<noteq> []" "hd rs1 = hd (remove1 mn rs1)" by auto
    from fin [OF this] step False show ?thesis by simp
  next
    case True
    with rs1 have hm: "h = mn" by simp
    from roots rs1 hm have sb: "sibs s1 None ([] @ mn # rest)" by simp
    show ?thesis
    proof (cases "right_sibling (s1 mn)")
      case (Some r)
      with sibs_neighbours(2) [OF sb] obtain rest' where "rest = r # rest'"
        by (cases rest) auto
      with rs1 hm have "remove1 mn rs1 \<noteq> []" "r = hd (remove1 mn rs1)" by auto
      from fin [OF this] step True Some show ?thesis by simp
    next
      case None
      with sibs_neighbours(2) [OF sb] have "rest = []" by (cases rest) auto
      with rs1 hm have r1: "rs1 = [mn]" by simp
      from hinv_root_to_float [OF inv1 [unfolded r1]] have "hinv s1 H [] cs1 d {mn}" .
      from hinv_leave [OF this _ e] have inv2: "hinv s1 (H - {mn}) [] cs1 d {}" by simp
      then have "heap_ok (s1, heap\<lparr>min_node := None\<rparr>) (H - {mn})"
        by (rule heap_okI) simp_all
      moreover from hinv_kids [OF inv1 mH] e have "children (s1 mn) = None" "rank (s1 mn) = 0"
        by (auto simp add: kids_ok_def)
      with None sibs_neighbours(1) [OF sb] hinv_root_parent [OF inv1 m1]
      have "unlinked s1 mn" by (simp add: unlinked_def)
      moreover from step True None
      have "remove_min (s, heap) = Some (mn, (s1, heap\<lparr>min_node := None\<rparr>))" by simp
      ultimately show ?thesis using sd out mH
        by (intro yieldsI) auto
    qed
  qed
qed

section \<open>The search\<close>

lemma heap_ok_cong:
  assumes "\<And>z. parent (s' z) = parent (s z) \<and> left_sibling (s' z) = left_sibling (s z)
              \<and> right_sibling (s' z) = right_sibling (s z)
              \<and> children (s' z) = children (s z) \<and> rank (s' z) = rank (s z)"
    and ok: "heap_ok (s, heap) H"
  shows "heap_ok (s', heap) H"
proof -
  from ok obtain rs cs d where inv: "hinv s H rs cs d {}"
    and mn: "min_node heap = None \<longrightarrow> rs = []" "\<forall>mn. min_node heap = Some mn \<longrightarrow> mn \<in> set rs"
    by (auto simp add: heap_ok_def)
  from hinv_cong [OF assms(1) inv] mn show ?thesis by (rule heap_okI)
qed

lemma unlinked_cong:
  "parent (s' z) = parent (s z) \<and> left_sibling (s' z) = left_sibling (s z)
     \<and> right_sibling (s' z) = right_sibling (s z)
     \<and> children (s' z) = children (s z) \<and> rank (s' z) = rank (s z)
   \<Longrightarrow> unlinked s' z = unlinked s z"
  by (simp add: unlinked_def)

lemma scan_edge_ok:
  assumes inv: "scan_inv N R (s, heap) H"
    and i: "i < length neighbors" "i < length distances" "neighbors ! i < N"
           "neighbors ! i \<in> R"
  shows "\<exists>s' heap' H'. scan_edge neighbors distances N v (s, heap) i = Some (s', heap')
           \<and> scan_inv N R (s', heap') H'
           \<and> (\<forall>z. (state (s' z) = 2) = (state (s z) = 2))"
proof -
  let ?cn = "neighbors ! i" and ?dist = "distances ! i"
  from inv have ok: "heap_ok (s, heap) H" and HN: "H \<subseteq> {..<N}"
    and all: "\<And>j. j < N \<Longrightarrow> index (s j) = j \<and> state (s j) \<le> 2
              \<and> (j \<in> H \<longleftrightarrow> state (s j) = 1)
              \<and> (j \<notin> H \<longrightarrow> unlinked s j)
              \<and> (state (s j) \<noteq> 0 \<longrightarrow> j \<in> R)"
    by (simp_all add: scan_inv_def)
  have rd: "read_at neighbors i = Some ?cn" "read_at distances i = Some ?dist"
    using i by (simp_all add: read_at_def)
  consider (scanned) "state (s ?cn) = 2" | (new) "state (s ?cn) = 0" | (old) "state (s ?cn) = 1"
    using all [OF i(3)] by (cases "state (s ?cn)") auto
  then show ?thesis
  proof cases
    case scanned
    with rd i(3) inv show ?thesis
      by (auto simp add: scan_edge_def)
  next
    case new
    let ?s1 = "s(?cn := (s ?cn)\<lparr>state := 1\<rparr>)"
    let ?s2 = "?s1(?cn := (?s1 ?cn)\<lparr>val := val (?s1 v) + ?dist\<rparr>)"
    from new all [OF i(3)] have cH: "?cn \<notin> H" and ul: "unlinked s ?cn" by auto
    have ok2: "heap_ok (?s2, heap) H"
      by (rule heap_ok_cong [OF _ ok]) simp
    from ul have f: "floating ?s2 ?cn" "children (?s2 ?cn) = None" "rank (?s2 ?cn) = 0"
      by (simp_all add: unlinked_def floating_def)
    from insert_fresh [OF ok2 cH f] obtain s' heap' where
      r: "insert_node (?s2, heap) ?cn = Some (s', heap')" "heap_ok (s', heap') (insert ?cn H)"
         "same_data ?s2 s'" "outside (insert ?cn H) ?s2 s'"
      by blast
    have st: "state (s' z) = (if z = ?cn then 1 else state (s z))" for z
      using r(3) by (simp add: same_data_def)
    have ix: "index (s' z) = index (s z)" for z
      using r(3) by (simp add: same_data_def)
    have "scan_inv N R (s', heap') (insert ?cn H)"
      unfolding scan_inv_def
    proof (intro conjI allI impI)
      show "heap_ok (s', heap') (insert ?cn H)" by (rule r(2))
      show "insert ?cn H \<subseteq> {..<N}" using HN i(3) by auto
    next
      fix j assume j: "j < N"
      show "index (fst (s', heap') j) = j" using all [OF j] by (simp add: ix)
      show "state (fst (s', heap') j) \<le> 2" using all [OF j] by (simp add: st)
      show "j \<in> insert ?cn H \<longleftrightarrow> state (fst (s', heap') j) = 1"
        using all [OF j] new by (auto simp add: st)
    next
      fix j assume j: "j < N" and "j \<notin> insert ?cn H"
      then have jj: "j \<noteq> ?cn" "j \<notin> H" by auto
      with r(4) have "s' j = s j" by (simp add: outside_def)
      with all [OF j] jj show "unlinked (fst (s', heap')) j"
        by (simp add: unlinked_def)
    next
      fix j assume j: "j < N" and "state (fst (s', heap') j) \<noteq> 0"
      with all [OF j] i(4) show "j \<in> R" by (auto simp add: st split: if_splits)
    qed
    moreover from new rd i(3) r(1)
    have "scan_edge neighbors distances N v (s, heap) i = Some (s', heap')"
      by (simp add: scan_edge_def Let_def)
    moreover from new have "\<forall>z. (state (s' z) = 2) = (state (s z) = 2)"
      by (simp add: st)
    ultimately show ?thesis by blast
  next
    case old
    with all [OF i(3)] have cH: "?cn \<in> H" by simp
    show ?thesis
    proof (cases "val (s ?cn) > val (s v) + ?dist")
      case False
      with old rd i(3) inv show ?thesis
        by (auto simp add: scan_edge_def)
    next
      case True
      from decrease_val_ok [OF ok cH, of "val (s v) + ?dist"] obtain s' heap' where
        r: "decrease_val (s, heap) ?cn (val (s v) + ?dist) = Some (s', heap')"
           "heap_ok (s', heap') H" "outside H s s'"
           "\<forall>z. state (s' z) = state (s z) \<and> index (s' z) = index (s z)
                  \<and> val (s' z) = (if z = ?cn then val (s v) + ?dist else val (s z))"
        by blast
      have "scan_inv N R (s', heap') H"
        unfolding scan_inv_def
      proof (intro conjI allI impI)
        show "heap_ok (s', heap') H" by (rule r(2))
        show "H \<subseteq> {..<N}" by (rule HN)
      next
        fix j assume j: "j < N"
        show "index (fst (s', heap') j) = j" using all [OF j] r(4) by simp
        show "state (fst (s', heap') j) \<le> 2" using all [OF j] r(4) by simp
        show "j \<in> H \<longleftrightarrow> state (fst (s', heap') j) = 1" using all [OF j] r(4) by simp
      next
        fix j assume j: "j < N" and jH: "j \<notin> H"
        with r(3) have "s' j = s j" by (simp add: outside_def)
        with all [OF j] jH show "unlinked (fst (s', heap')) j" by (simp add: unlinked_def)
      next
        fix j assume j: "j < N" and "state (fst (s', heap') j) \<noteq> 0"
        with all [OF j] r(4) show "j \<in> R" by simp
      qed
      moreover from old True rd i(3) r(1)
      have "scan_edge neighbors distances N v (s, heap) i = Some (s', heap')"
        by (simp add: scan_edge_def Let_def)
      ultimately show ?thesis using r(4) by auto
    qed
  qed
qed

lemma scan_edges_ok:
  assumes "scan_inv N R (s, heap) H"
    and "list_all (\<lambda>i. i < length neighbors \<and> i < length distances \<and> neighbors ! i < N
                       \<and> neighbors ! i \<in> R) ks"
  shows "\<exists>s' heap' H'. scan_edges neighbors distances N v ks (s, heap) = Some (s', heap')
           \<and> scan_inv N R (s', heap') H'
           \<and> (\<forall>z. (state (s' z) = 2) = (state (s z) = 2))"
  using assms
proof (induction ks arbitrary: s heap H)
  case Nil
  then show ?case by auto
next
  case (Cons k ks)
  from Cons.prems(2) have k: "k < length neighbors" "k < length distances"
    "neighbors ! k < N" "neighbors ! k \<in> R" by simp_all
  from scan_edge_ok [OF Cons.prems(1) k, of v] obtain s1 heap1 H1 where
    1: "scan_edge neighbors distances N v (s, heap) k = Some (s1, heap1)"
       "scan_inv N R (s1, heap1) H1" "\<forall>z. (state (s1 z) = 2) = (state (s z) = 2)"
    by blast
  from Cons.prems(2) have rest: "list_all (\<lambda>i. i < length neighbors \<and> i < length distances
       \<and> neighbors ! i < N \<and> neighbors ! i \<in> R) ks" by simp
  from Cons.IH [OF 1(2) rest] obtain s' heap' H' where
    2: "scan_edges neighbors distances N v ks (s1, heap1) = Some (s', heap')"
       "scan_inv N R (s', heap') H'" "\<forall>z. (state (s' z) = 2) = (state (s1 z) = 2)"
    by blast
  from 1(1) 2(1) have "scan_edges neighbors distances N v (k # ks) (s, heap) = Some (s', heap')"
    by simp
  with 2(2,3) 1(3) show ?case by auto
qed

lemma scan_row_ok:
  assumes inv: "scan_inv N R (s, heap) H" and v: "v < N" "v \<in> R"
    and csr: "csr_ok N neighbors distances indptr"
    and cl: "closed_under R N neighbors indptr"
  shows "\<exists>s' heap' H'. scan_row neighbors distances indptr N v (s, heap) = Some (s', heap')
           \<and> scan_inv N R (s', heap') H'
           \<and> (\<forall>z. (state (s' z) = 2) = (state (s z) = 2))"
proof -
  from inv v have ix: "index (s v) = v" by (simp add: scan_inv_def)
  from csr v have rd: "read_at indptr v = Some (indptr ! v)"
    "read_at indptr (v + 1) = Some (indptr ! (v + 1))"
    by (simp_all add: csr_ok_def read_at_def)
  from csr v have "list_all (\<lambda>i. i < length neighbors \<and> i < length distances
       \<and> neighbors ! i < N) [indptr ! v ..< indptr ! (v + 1)]"
    by (simp add: csr_ok_def list_all_iff)
  with cl v have "list_all (\<lambda>i. i < length neighbors \<and> i < length distances
       \<and> neighbors ! i < N \<and> neighbors ! i \<in> R) [indptr ! v ..< indptr ! (v + 1)]"
    by (auto simp add: closed_under_def list_all_iff)
  from scan_edges_ok [OF inv this, of v] ix rd show ?thesis
    by (simp add: scan_row_def)
qed

lemma initialize_nodes_at:
  "initialize_nodes N s i =
     (if i < N then \<lparr>index = i, rank = 0, state = 0, val = 0, parent = None,
                      left_sibling = None, right_sibling = None, children = None\<rparr>
      else s i)"
  by (induction N) (simp_all add: initialize_nodes_def initialize_node_def)

lemma reset_nodes_at:
  "reset_nodes N s i = (if i < N then (s i)\<lparr>state := 0, val := 0\<rparr> else s i)"
  by (induction N arbitrary: i) (simp_all add: reset_nodes_def Let_def)

lemma clean_initialize_nodes: "clean N (initialize_nodes N s)"
  by (simp add: clean_def list_all_iff initialize_nodes_at unlinked_def)

lemma clean_reset_is_initialize:
  assumes "clean N s"
  shows "reset_nodes N s = initialize_nodes N s"
proof
  fix i
  show "reset_nodes N s i = initialize_nodes N s i"
  proof (cases "i < N")
    case True
    with assms have "unlinked s i" "index (s i) = i" by (simp_all add: clean_def list_all_iff)
    with True show ?thesis
      by (simp add: reset_nodes_at initialize_nodes_at unlinked_def)
  next
    case False
    then show ?thesis by (simp add: reset_nodes_at initialize_nodes_at)
  qed
qed

lemma heap_ok_empty: "min_node heap = None \<Longrightarrow> heap_ok (s, heap) {}"
  by (rule heap_okI [where rs = "[]" and cs = "\<lambda>_. []" and d = "\<lambda>_. 0"])
     (simp_all add: hinv_def)

lemma heap_ok_exhausted:
  assumes "heap_ok (s, heap) H" and "min_node heap = None"
  shows "H = {}"
proof -
  from assms obtain cs d where "hinv s H [] cs d {}" by (auto simp add: heap_ok_def)
  then show ?thesis by (rule hinv_empty)
qed

lemma loop_inv_exhausted:
  assumes "loop_inv N R (s, heap)" and "min_node heap = None"
  shows "clean N s"
proof -
  from assms(1) obtain H where ok: "heap_ok (s, heap) H"
    and all: "\<forall>i<N. index (s i) = i \<and> state (s i) \<le> 2
                \<and> (i \<notin> H \<longrightarrow> unlinked s i \<and> state (s i) \<noteq> 1)
                \<and> (state (s i) \<noteq> 0 \<longrightarrow> i \<in> R)"
    by (auto simp add: loop_inv_def)
  from heap_ok_exhausted [OF ok assms(2)] all show ?thesis
    by (simp add: clean_def list_all_iff)
qed

lemma loop_inv_start:
  assumes c: "\<forall>i<N. unlinked s i \<and> index (s i) = i \<and> state (s i) = 0"
    and mn: "min_node heap = None" and src: "i_node < N" "i_node \<in> R"
  shows "\<exists>s' heap'. insert_node (s, heap) i_node = Some (s', heap')
           \<and> loop_inv N R (s', heap')"
proof -
  from c src have u: "unlinked s i_node" by simp
  then have f: "floating s i_node" "children (s i_node) = None" "rank (s i_node) = 0"
    by (simp_all add: unlinked_def floating_def)
  from insert_fresh [OF heap_ok_empty [OF mn] _ f] obtain s' heap' where
    r: "insert_node (s, heap) i_node = Some (s', heap')" "heap_ok (s', heap') {i_node}"
       "same_data s s'" "outside {i_node} s s'"
    by auto
  have "loop_inv N R (s', heap')"
    unfolding loop_inv_def
  proof (intro exI [of _ "{i_node}"] conjI allI impI ballI)
    show "heap_ok (s', heap') {i_node}" by (rule r(2))
    show "{i_node} \<subseteq> {..<N}" "{i_node} \<subseteq> R" using src by simp_all
    show "(\<forall>i\<in>{i_node}. state (fst (s', heap') i) = 1) \<or> (\<exists>x. {i_node} = {x})" by simp
  next
    fix i assume i: "i < N"
    from r(3) c i show "index (fst (s', heap') i) = i" "state (fst (s', heap') i) \<le> 2"
      by (simp_all add: same_data_def)
    { assume "state (fst (s', heap') i) \<noteq> 0"
      with r(3) c i show "i \<in> R" by (simp add: same_data_def) }
    { assume n: "i \<notin> {i_node}"
      with r(4) have "s' i = s i" by (simp add: outside_def)
      with c i show "unlinked (fst (s', heap')) i" "state (fst (s', heap') i) \<noteq> 1"
        by (simp_all add: unlinked_def) }
  next
    fix i assume "i \<in> {i_node}"
    with r(3) c src show "state (fst (s', heap') i) \<noteq> 2" by (simp add: same_data_def)
  qed
  with r(1) show ?thesis by blast
qed

lemma extract_ok:
  assumes inv: "loop_inv N R (s, heap)" and mn: "min_node heap = Some x"
  shows "yields (N \<le> 100) (remove_min (s, heap))
           (\<lambda>r. \<exists>s1 heap1 H1. r = (x, (s1, heap1)) \<and> x < N \<and> x \<in> R
              \<and> scan_inv N R (s1(x := (s1 x)\<lparr>state := 2\<rparr>), heap1) H1
              \<and> state (s x) \<noteq> 2 \<and> (\<forall>z. state (s1 z) = state (s z)))"
proof -
  from inv obtain H where ok: "heap_ok (s, heap) H" and HN: "H \<subseteq> {..<N}" and HR: "H \<subseteq> R"
    and all: "\<And>i. i < N \<Longrightarrow> index (s i) = i \<and> state (s i) \<le> 2
                \<and> (i \<notin> H \<longrightarrow> unlinked s i \<and> state (s i) \<noteq> 1)
                \<and> (state (s i) \<noteq> 0 \<longrightarrow> i \<in> R)"
    and n2: "\<forall>i\<in>H. state (s i) \<noteq> 2"
    and one: "(\<forall>i\<in>H. state (s i) = 1) \<or> (\<exists>x. H = {x})"
    by (auto simp add: loop_inv_def)
  show ?thesis
  proof (rule yields_mono [OF remove_min_ok [OF ok mn]])
    assume "N \<le> 100"
    moreover from HN have "card H \<le> card {..<N}" by (intro card_mono) simp_all
    ultimately show "card H \<le> 100" by simp
  next
    fix y :: "nat \<times> memory"
    assume "\<exists>s' heap'. y = (x, (s', heap'))
              \<and> x \<in> H \<and> heap_ok (s', heap') (H - {x})
              \<and> same_data s s' \<and> outside H s s' \<and> unlinked s' x"
    then obtain s1 heap1 where
      r: "y = (x, (s1, heap1))" "x \<in> H" "heap_ok (s1, heap1) (H - {x})"
         "same_data s s1" "outside H s s1" "unlinked s1 x"
      by blast
    let ?s2 = "s1(x := (s1 x)\<lparr>state := 2\<rparr>)"
    have ok2: "heap_ok (?s2, heap1) (H - {x})"
      by (rule heap_ok_cong [OF _ r(3)]) simp
    have st: "state (s1 z) = state (s z)" and ix: "index (s1 z) = index (s z)" for z
      using r(4) by (simp_all add: same_data_def)
    have "scan_inv N R (?s2, heap1) (H - {x})"
      unfolding scan_inv_def
    proof (intro conjI allI impI)
      show "heap_ok (?s2, heap1) (H - {x})" by (rule ok2)
      show "H - {x} \<subseteq> {..<N}" using HN by auto
    next
      fix i assume i: "i < N"
      show "index (fst (?s2, heap1) i) = i" using all [OF i] by (auto simp add: ix)
      show "state (fst (?s2, heap1) i) \<le> 2" using all [OF i] by (auto simp add: st)
      show "i \<in> H - {x} \<longleftrightarrow> state (fst (?s2, heap1) i) = 1"
        using all [OF i] one r(2) by (auto simp add: st)
    next
      fix i assume i: "i < N" and n: "i \<notin> H - {x}"
      show "unlinked (fst (?s2, heap1)) i"
      proof (cases "i = x")
        case True
        with r(6) show ?thesis by (simp add: unlinked_def)
      next
        case False
        with n have "i \<notin> H" by simp
        with r(5) have "s1 i = s i" by (simp add: outside_def)
        with all [OF i] \<open>i \<notin> H\<close> False show ?thesis by (simp add: unlinked_def)
      qed
    next
      fix i assume i: "i < N" and "state (fst (?s2, heap1) i) \<noteq> 0"
      with all [OF i] r(2) HR show "i \<in> R" by (auto simp add: st split: if_splits)
    qed
    moreover from r(2) HN HR n2 have "x < N" "x \<in> R" "state (s x) \<noteq> 2" by auto
    ultimately show "\<exists>s1 heap1 H1. y = (x, (s1, heap1)) \<and> x < N \<and> x \<in> R
              \<and> scan_inv N R (s1(x := (s1 x)\<lparr>state := 2\<rparr>), heap1) H1
              \<and> state (s x) \<noteq> 2 \<and> (\<forall>z. state (s1 z) = state (s z))"
      using r(1) st by blast
  qed
qed

lemma scan_inv_loop_inv:
  assumes "scan_inv N R m H"
  shows "loop_inv N R m"
proof -
  from assms have "\<forall>i\<in>H. i < N" by (auto simp add: scan_inv_def)
  with assms show ?thesis
    unfolding loop_inv_def scan_inv_def
    by (intro exI [of _ H]) auto
qed

lemma unscanned_step:
  assumes x: "x < N" "state (s x) \<noteq> 2"
    and st: "\<forall>z. (state (s' z) = 2) = (z = x \<or> state (s z) = 2)"
  shows "card (unscanned N s') < card (unscanned N s)"
proof -
  have "unscanned N s' = unscanned N s - {x}"
    using st by (auto simp add: unscanned_def)
  moreover have "x \<in> unscanned N s" using x by (simp add: unscanned_def)
  moreover have "finite (unscanned N s)" by (simp add: unscanned_def)
  ultimately show ?thesis using card_Diff1_less [of "unscanned N s" x] by simp
qed

lemma row_written_refl:
  "length (graph ! i_node) = N \<Longrightarrow> row_written R N i_node graph graph"
  by (simp add: row_written_def)

lemma row_written_step:
  assumes "i_node < length graph" "length (graph ! i_node) = N" "x \<in> R"
    and "row_written R N i_node (graph[i_node := (graph ! i_node)[x := v]]) graph'"
  shows "row_written R N i_node graph graph'"
proof -
  have "(graph ! i_node)[x := v] ! j = graph ! i_node ! j" if "j \<notin> R" for j
    using that assms(3) by (intro nth_list_update_neq) auto
  with assms show ?thesis by (simp add: row_written_def)
qed

lemma directed_loop_ok:
  assumes csr: "csr_ok N neighbors distances indptr"
    and cl: "closed_under R N neighbors indptr"
  shows "loop_inv N R m \<Longrightarrow> i_node < length graph \<Longrightarrow> length (graph ! i_node) = N
    \<Longrightarrow> yields (N \<le> 100) (directed_loop i_node neighbors distances indptr N (m, graph))
          (\<lambda>r. \<exists>s' heap' graph'. r = ((s', heap'), graph')
             \<and> min_node heap' = None \<and> loop_inv N R (s', heap')
             \<and> row_written R N i_node graph graph')"
proof (induction "card (unscanned N (fst m))" arbitrary: m graph rule: less_induct)
  case less
  obtain s heap where m: "m = (s, heap)" by (cases m)
  show ?case
  proof (cases "min_node heap")
    case None
    then have "directed_loop i_node neighbors distances indptr N (m, graph) = Some (m, graph)"
      by (subst directed_loop.simps) (simp add: m)
    with None less.prems show ?thesis
      by (intro yieldsI) (auto simp add: m row_written_refl)
  next
    case (Some x)
    from extract_ok [OF less.prems(1) [unfolded m] Some] show ?thesis
    proof (cases rule: yields_cases)
      case overflow
      from overflow(1) Some
      have "directed_loop i_node neighbors distances indptr N (m, graph) = None"
        by (subst directed_loop.simps) (simp add: m)
      then show ?thesis using overflow(2) by (rule yields_overflow)
    next
      case (returns y)
      then obtain s1 heap1 H1 where
        e: "remove_min (s, heap) = Some (x, (s1, heap1))" "x < N" "x \<in> R"
           "scan_inv N R (s1(x := (s1 x)\<lparr>state := 2\<rparr>), heap1) H1"
           "state (s x) \<noteq> 2" "\<forall>z. state (s1 z) = state (s z)"
        by blast
      let ?s2 = "s1(x := (s1 x)\<lparr>state := 2\<rparr>)"
      from scan_row_ok [OF e(4) e(2,3) csr cl] obtain s3 heap3 H3 where
        r: "scan_row neighbors distances indptr N x (?s2, heap1) = Some (s3, heap3)"
           "scan_inv N R (s3, heap3) H3" "\<forall>z. (state (s3 z) = 2) = (state (?s2 z) = 2)"
        by blast
      from r(2) e(2) have ix: "index (s3 x) = x" by (simp add: scan_inv_def)
      let ?graph1 = "graph[i_node := (graph ! i_node)[x := val (s3 x)]]"
      from less.prems(2,3) e(2)
      have gs: "graph_set graph i_node (index (s3 x)) (val (s3 x)) = Some ?graph1"
        by (simp add: graph_set_def ix)
      have "\<forall>z. (state (s3 z) = 2) = (z = x \<or> state (s z) = 2)"
        using r(3) e(6) by simp
      from unscanned_step [OF e(2,5) this]
      have lt: "card (unscanned N (fst (s3, heap3))) < card (unscanned N (fst m))"
        by (simp add: m)
      have g1: "i_node < length ?graph1" "length (?graph1 ! i_node) = N"
        using less.prems(2,3) by simp_all
      have eq: "directed_loop i_node neighbors distances indptr N (m, graph)
              = directed_loop i_node neighbors distances indptr N ((s3, heap3), ?graph1)"
        by (subst directed_loop.simps) (simp add: m Some e(1) r(1) gs)
      show ?thesis
        unfolding eq
      proof (rule yields_mono [OF less.hyps [OF lt scan_inv_loop_inv [OF r(2)] g1]])
        fix y :: "memory \<times> ndarray"
        assume "\<exists>s' heap' graph'. y = ((s', heap'), graph')
             \<and> min_node heap' = None \<and> loop_inv N R (s', heap')
             \<and> row_written R N i_node ?graph1 graph'"
        then show "\<exists>s' heap' graph'. y = ((s', heap'), graph')
             \<and> min_node heap' = None \<and> loop_inv N R (s', heap')
             \<and> row_written R N i_node graph graph'"
          using row_written_step [OF less.prems(2,3) e(3)] by blast
      qed
    qed
  qed
qed

lemma undirected_loop_ok:
  assumes csr1: "csr_ok N neighbors1 distances1 indptr1"
    and cl1: "closed_under R N neighbors1 indptr1"
    and csr2: "csr_ok N neighbors2 distances2 indptr2"
    and cl2: "closed_under R N neighbors2 indptr2"
  shows "loop_inv N R m \<Longrightarrow> i_node < length graph \<Longrightarrow> length (graph ! i_node) = N
    \<Longrightarrow> yields (N \<le> 100)
          (undirected_loop i_node neighbors1 distances1 indptr1
             neighbors2 distances2 indptr2 N (m, graph))
          (\<lambda>r. \<exists>s' heap' graph'. r = ((s', heap'), graph')
             \<and> min_node heap' = None \<and> loop_inv N R (s', heap')
             \<and> row_written R N i_node graph graph')"
proof (induction "card (unscanned N (fst m))" arbitrary: m graph rule: less_induct)
  case less
  obtain s heap where m: "m = (s, heap)" by (cases m)
  show ?case
  proof (cases "min_node heap")
    case None
    then have "undirected_loop i_node neighbors1 distances1 indptr1
                 neighbors2 distances2 indptr2 N (m, graph) = Some (m, graph)"
      by (subst undirected_loop.simps) (simp add: m)
    with None less.prems show ?thesis
      by (intro yieldsI) (auto simp add: m row_written_refl)
  next
    case (Some x)
    from extract_ok [OF less.prems(1) [unfolded m] Some] show ?thesis
    proof (cases rule: yields_cases)
      case overflow
      from overflow(1) Some
      have "undirected_loop i_node neighbors1 distances1 indptr1
              neighbors2 distances2 indptr2 N (m, graph) = None"
        by (subst undirected_loop.simps) (simp add: m)
      then show ?thesis using overflow(2) by (rule yields_overflow)
    next
      case (returns y)
      then obtain s1 heap1 H1 where
        e: "remove_min (s, heap) = Some (x, (s1, heap1))" "x < N" "x \<in> R"
           "scan_inv N R (s1(x := (s1 x)\<lparr>state := 2\<rparr>), heap1) H1"
           "state (s x) \<noteq> 2" "\<forall>z. state (s1 z) = state (s z)"
        by blast
      let ?s2 = "s1(x := (s1 x)\<lparr>state := 2\<rparr>)"
      from scan_row_ok [OF e(4) e(2,3) csr1 cl1] obtain s3 heap3 H3 where
        r: "scan_row neighbors1 distances1 indptr1 N x (?s2, heap1) = Some (s3, heap3)"
           "scan_inv N R (s3, heap3) H3" "\<forall>z. (state (s3 z) = 2) = (state (?s2 z) = 2)"
        by blast
      from scan_row_ok [OF r(2) e(2,3) csr2 cl2] obtain s4 heap4 H4 where
        q: "scan_row neighbors2 distances2 indptr2 N x (s3, heap3) = Some (s4, heap4)"
           "scan_inv N R (s4, heap4) H4" "\<forall>z. (state (s4 z) = 2) = (state (s3 z) = 2)"
        by blast
      from q(2) e(2) have ix: "index (s4 x) = x" by (simp add: scan_inv_def)
      let ?graph1 = "graph[i_node := (graph ! i_node)[x := val (s4 x)]]"
      from less.prems(2,3) e(2)
      have gs: "graph_set graph i_node (index (s4 x)) (val (s4 x)) = Some ?graph1"
        by (simp add: graph_set_def ix)
      have "\<forall>z. (state (s4 z) = 2) = (z = x \<or> state (s z) = 2)"
        using q(3) r(3) e(6) by simp
      from unscanned_step [OF e(2,5) this]
      have lt: "card (unscanned N (fst (s4, heap4))) < card (unscanned N (fst m))"
        by (simp add: m)
      have g1: "i_node < length ?graph1" "length (?graph1 ! i_node) = N"
        using less.prems(2,3) by simp_all
      have eq: "undirected_loop i_node neighbors1 distances1 indptr1
              neighbors2 distances2 indptr2 N (m, graph)
            = undirected_loop i_node neighbors1 distances1 indptr1
                neighbors2 distances2 indptr2 N ((s4, heap4), ?graph1)"
        by (subst undirected_loop.simps) (simp add: m Some e(1) r(1) q(1) gs)
      show ?thesis
        unfolding eq
      proof (rule yields_mono [OF less.hyps [OF lt scan_inv_loop_inv [OF q(2)] g1]])
        fix y :: "memory \<times> ndarray"
        assume "\<exists>s' heap' graph'. y = ((s', heap'), graph')
             \<and> min_node heap' = None \<and> loop_inv N R (s', heap')
             \<and> row_written R N i_node ?graph1 graph'"
        then show "\<exists>s' heap' graph'. y = ((s', heap'), graph')
             \<and> min_node heap' = None \<and> loop_inv N R (s', heap')
             \<and> row_written R N i_node graph graph'"
          using row_written_step [OF less.prems(2,3) e(3)] by blast
      qed
    qed
  qed
qed

lemma dijkstra_directed_one_row_ok:
  assumes csr: "csr_ok N neighbors distances indptr"
    and cl: "closed_under R N neighbors indptr"
    and src: "i_node < N" "i_node \<in> R"
    and g: "i_node < length graph" "length (graph ! i_node) = N"
  shows "yields (N \<le> 100)
           (dijkstra_directed_one_row i_node neighbors distances indptr N ((s, heap), graph))
           (\<lambda>r. \<exists>s' heap' graph'. r = ((s', heap'), graph')
              \<and> min_node heap' = None \<and> clean N s' \<and> row_written R N i_node graph graph')"
proof -
  let ?s1 = "initialize_nodes N s" and ?heap1 = "heap\<lparr>min_node := None\<rparr>"
  have "\<forall>i<N. unlinked ?s1 i \<and> index (?s1 i) = i \<and> state (?s1 i) = 0"
    by (simp add: initialize_nodes_at unlinked_def)
  moreover have "min_node ?heap1 = None" by simp
  ultimately obtain s2 heap2 where
    i: "insert_node (?s1, ?heap1) i_node = Some (s2, heap2)" "loop_inv N R (s2, heap2)"
    using loop_inv_start [OF _ _ src, of ?s1 ?heap1] by blast
  from src(1) i(1)
  have eq: "dijkstra_directed_one_row i_node neighbors distances indptr N ((s, heap), graph)
          = directed_loop i_node neighbors distances indptr N ((s2, heap2), graph)"
    by (simp add: dijkstra_directed_one_row_def Let_def)
  show ?thesis
    unfolding eq
    by (rule yields_mono [OF directed_loop_ok [OF csr cl i(2) g]])
       (auto dest: loop_inv_exhausted)
qed

lemma dijkstra_one_row_ok:
  assumes csr1: "csr_ok N neighbors1 distances1 indptr1"
    and cl1: "closed_under R N neighbors1 indptr1"
    and csr2: "csr_ok N neighbors2 distances2 indptr2"
    and cl2: "closed_under R N neighbors2 indptr2"
    and src: "i_node < N" "i_node \<in> R"
    and g: "i_node < length graph" "length (graph ! i_node) = N"
    and c: "clean N s" and mn: "min_node heap = None"
  shows "yields (N \<le> 100)
           (dijkstra_one_row i_node neighbors1 distances1 indptr1
              neighbors2 distances2 indptr2 N ((s, heap), graph))
           (\<lambda>r. \<exists>s' heap' graph'. r = ((s', heap'), graph')
              \<and> min_node heap' = None \<and> clean N s' \<and> row_written R N i_node graph graph')"
proof -
  let ?s1 = "reset_nodes N s"
  from c have "\<forall>i<N. unlinked ?s1 i \<and> index (?s1 i) = i \<and> state (?s1 i) = 0"
    by (simp add: reset_nodes_at unlinked_def clean_def list_all_iff)
  from loop_inv_start [OF this mn src] obtain s2 heap2 where
    i: "insert_node (?s1, heap) i_node = Some (s2, heap2)" "loop_inv N R (s2, heap2)"
    by auto
  from src(1) i(1)
  have eq: "dijkstra_one_row i_node neighbors1 distances1 indptr1
          neighbors2 distances2 indptr2 N ((s, heap), graph)
          = undirected_loop i_node neighbors1 distances1 indptr1
              neighbors2 distances2 indptr2 N ((s2, heap2), graph)"
    by (simp add: dijkstra_one_row_def Let_def)
  show ?thesis
    unfolding eq
    by (rule yields_mono [OF undirected_loop_ok [OF csr1 cl1 csr2 cl2 i(2) g]])
       (auto dest: loop_inv_exhausted)
qed

lemma closed_under_UNIV: "closed_under UNIV N neighbors indptr"
  by (simp add: closed_under_def)

section \<open>Compressed rows\<close>










subsection \<open>The conversions\<close>











section \<open>Entries of the Floyd-Warshall matrix\<close>















subsection \<open>The array that the routine works on\<close>






section \<open>All the rows of the result\<close>








section \<open>Reachability\<close>








section \<open>The claims\<close>

subsection \<open>C1: the dense and the sparse routine on the same directed input\<close>

text \<open>
  C1 says that \<open>floyd_warshall\<close> and \<open>dijkstra\<close>, both with \<open>directed = True\<close>,
  return the same matrix on every square matrix of non-negative weights. On
  \<open>detour_graph\<close> they do not: Floyd-Warshall returns the distance 3 from vertex 0 to
  vertex 1, Dijkstra returns 6. When vertex 3 is scanned, vertex 2 is a root of the heap
  and its value drops from 10 to 2 below the value 6 of the minimum, vertex 1;
  \<open>decrease_val\<close> leaves \<open>min_node\<close> as it is, so vertex 1 is extracted first, with a
  value that is not final.
\<close>

theorem dense_and_sparse_differ_on_detour_graph:
  "floyd_warshall [detour_graph] (Dense dense_input) True False =
     Inr ([detour_graph,
           [[Fin 0, Fin 3, Fin 2, Fin 1],
            [Fin 0, Fin 0, Fin 0, Fin 0],
            [Fin 0, Fin 1, Fin 0, Fin 0],
            [Fin 0, Fin 2, Fin 1, Fin 0]]], 1)
   \<and> dijkstra [detour_graph] (Dense dense_input) True None =
     Some (Inr [[Fin 0, Fin 6, Fin 2, Fin 1],
                [Fin 0, Fin 0, Fin 0, Fin 0],
                [Fin 0, Fin 1, Fin 0, Fin 0],
                [Fin 0, Fin 2, Fin 1, Fin 0]])"
proof
  show "floyd_warshall [detour_graph] (Dense dense_input) True False =
     Inr ([detour_graph,
           [[Fin 0, Fin 3, Fin 2, Fin 1],
            [Fin 0, Fin 0, Fin 0, Fin 0],
            [Fin 0, Fin 1, Fin 0, Fin 0],
            [Fin 0, Fin 2, Fin 1, Fin 0]]], 1)"
    by (simp add: floyd_warshall_rules detour_graph_def dense_input_def)
  show "dijkstra [detour_graph] (Dense dense_input) True None =
     Some (Inr [[Fin 0, Fin 6, Fin 2, Fin 1],
                [Fin 0, Fin 0, Fin 0, Fin 0],
                [Fin 0, Fin 1, Fin 0, Fin 0],
                [Fin 0, Fin 2, Fin 1, Fin 0]])"
    by (simp add: search_rules heap_rules detour_graph_def dense_input_def
             cong: bind_weak_cong)
qed

subsection \<open>C2: the order of extraction from the heap\<close>

text \<open>
  C2 says that the values of the nodes that successive \<open>remove_min\<close> calls return
  never decrease. After inserting node 0 with value 5 and node 1 with value 10 and
  decreasing node 1 to 3 (allowed: 3 is below 10), the heap returns node 0 with value 5
  and then node 1 with value 3. Node 1 is a root, so \<open>decrease_val\<close> neither cuts it
  nor compares it with the minimum, which \<open>insert_node\<close> does for a new root.
\<close>

theorem extraction_order_after_decrease_of_root:
  "do {
     m1 \<leftarrow> insert_node (two_nodes, local_heap) 0;
     m2 \<leftarrow> insert_node m1 1;
     m3 \<leftarrow> decrease_val m2 1 (Fin 3);
     (a, m4) \<leftarrow> remove_min m3;
     (b, m5) \<leftarrow> remove_min m4;
     Some [(a, val (fst m4 a)), (b, val (fst m5 b))]
   } = Some [(0, Fin 5), (1, Fin 3)]"
  by (simp add: heap_rules two_nodes_def cong: bind_weak_cong)

subsection \<open>C3: negative weights\<close>

text \<open>
  C3: when the value array of the compressed-row form of the input holds a negative
  entry, \<open>dijkstra\<close> raises the error "Negative distances are not supported". The
  result is the error alone: no node is initialised, no search runs and no array is
  returned.
\<close>

theorem negative_weight_rejected:
  "list_ex (\<lambda>x. x < 0)
     (csr_data (case dm of Sparse c \<Rightarrow> c | Dense a \<Rightarrow> csr_matrix (st ! buffer a)))
   \<Longrightarrow> dijkstra st dm directed indices_arg =
         Some (Inl (ValueError ''Negative distances are not supported''))"
  by (simp add: dijkstra_def Let_def)

theorem negative_weight_rejected_witness:
  "list_ex (\<lambda>x. x < 0) (csr_data negative_edge) \<and>
   dijkstra [] (Sparse negative_edge) True None =
     Some (Inl (ValueError ''Negative distances are not supported''))"
proof -
  have h: "list_ex (\<lambda>x. x < 0)
             (csr_data (case Sparse negative_edge of
                          Sparse c \<Rightarrow> c | Dense a \<Rightarrow> csr_matrix ([] ! buffer a)))"
    by (simp add: negative_edge_def zero_DTYPE_t_def)
  from negative_weight_rejected [OF h] h show ?thesis by simp
qed

subsection \<open>C5: the choice of the routine under "auto"\<close>

text \<open>
  C5: with \<open>method = 'auto'\<close> the dispatcher runs \<open>dijkstra\<close> exactly when the number
  \<open>Nk\<close> of stored entries is below \<open>N * N / 4\<close>, that is when \<open>4 * Nk < N * N\<close>, and
  \<open>floyd_warshall\<close> otherwise.
\<close>

theorem auto_selects_by_density:
  "graph_shortest_path st dm directed ''auto'' overwrite =
     (let dist_matrix = (case dm of Sparse c \<Rightarrow> c | Dense a \<Rightarrow> csr_matrix (st ! buffer a));
          N = fst (csr_shape dist_matrix);
          Nk = length (csr_data dist_matrix)
      in if 4 * Nk < N * N
         then dijkstra st (Sparse dist_matrix) directed None
         else Some (case floyd_warshall st (Sparse dist_matrix) directed overwrite of
                      Inl e \<Rightarrow> Inl e
                    | Inr (st1, graph) \<Rightarrow> Inr (st1 ! graph)))"
proof -
  have "((of_nat Nk :: rat) < of_nat (N * N) / 4) = (4 * Nk < N * N)" for Nk N :: nat
  proof -
    have "((of_nat Nk :: rat) < of_nat (N * N) / 4)
          = ((of_nat (4 * Nk) :: rat) < of_nat (N * N))"
      by (simp add: field_simps)
    also have "\<dots> = (4 * Nk < N * N)"
      by (simp only: of_nat_less_iff)
    finally show ?thesis .
  qed
  then show ?thesis
    by (simp add: graph_shortest_path_def Let_def)
qed

subsection \<open>C6: the method selectors\<close>

text \<open>
  C6 names the selectors "auto", "dense" and "sparse". The code knows "auto", "FW" and
  "D": the selector "dense" is rejected as unrecognized.
\<close>

theorem dense_selector_unrecognized:
  "graph_shortest_path [detour_graph] (Dense dense_input) True ''dense'' True =
     Some (Inl (ValueError (''unrecognized method '' @ [CHR 0x27] @ ''dense'' @ [CHR 0x27])))"
  by (simp add: graph_shortest_path_def Let_def)

text \<open>
  C6 as amended: the entry point accepts exactly the selectors "auto", "FW" and "D". "FW"
  runs \<open>floyd_warshall\<close>, "D" runs \<open>dijkstra\<close>, "auto" runs one of the two, and every
  other selector raises the error "unrecognized method".
\<close>

theorem method_selectors:
  "graph_shortest_path st dm directed ''FW'' overwrite =
     Some (case floyd_warshall st
                  (Sparse (case dm of Sparse c \<Rightarrow> c | Dense a \<Rightarrow> csr_matrix (st ! buffer a)))
                  directed overwrite of
             Inl e \<Rightarrow> Inl e
           | Inr (st1, graph) \<Rightarrow> Inr (st1 ! graph))
   \<and> graph_shortest_path st dm directed ''D'' overwrite =
       dijkstra st
         (Sparse (case dm of Sparse c \<Rightarrow> c | Dense a \<Rightarrow> csr_matrix (st ! buffer a)))
         directed None
   \<and> (graph_shortest_path st dm directed ''auto'' overwrite =
         graph_shortest_path st dm directed ''D'' overwrite
       \<or> graph_shortest_path st dm directed ''auto'' overwrite =
         graph_shortest_path st dm directed ''FW'' overwrite)
   \<and> (method \<noteq> ''auto'' \<and> method \<noteq> ''FW'' \<and> method \<noteq> ''D'' \<longrightarrow>
        graph_shortest_path st dm directed method overwrite =
          Some (Inl (ValueError (''unrecognized method '' @ [CHR 0x27] @ method @ [CHR 0x27]))))"
  by (simp add: graph_shortest_path_def Let_def)

theorem method_selectors_witness:
  "''sparse'' \<noteq> ''auto'' \<and> ''sparse'' \<noteq> ''FW'' \<and> ''sparse'' \<noteq> ''D'' \<and>
   graph_shortest_path [detour_graph] (Dense dense_input) True ''sparse'' True =
     Some (Inl (ValueError (''unrecognized method '' @ [CHR 0x27] @ ''sparse'' @ [CHR 0x27])))"
  using method_selectors [of "[detour_graph]" "Dense dense_input" True True "''sparse''"]
  by simp

subsection \<open>C7: symmetry of the result in undirected mode\<close>

text \<open>
  C7 says that with \<open>directed = False\<close> the result is symmetric under either routine.
  On \<open>symmetric_detour_graph\<close>, whose weights are symmetric, \<open>dijkstra\<close> returns 6 in
  row 0, column 1 and 3 in row 1, column 0. The cause is the one of C1: the search from
  vertex 0 extracts vertex 1 before vertex 2, whose value was decreased while it was a
  root.
\<close>

theorem undirected_dijkstra_not_symmetric:
  "dijkstra [symmetric_detour_graph] (Dense dense_input) False None =
     Some (Inr [[Fin 0, Fin 6, Fin 2, Fin 1],
                [Fin 3, Fin 0, Fin 1, Fin 2],
                [Fin 2, Fin 1, Fin 0, Fin 1],
                [Fin 1, Fin 2, Fin 1, Fin 0]])"
  by (simp add: search_rules heap_rules symmetric_detour_graph_def dense_input_def
           cong: bind_weak_cong)

subsection \<open>C9: the overwrite flag of floyd\_warshall\<close>

lemma floyd_warshall_dense:
  "floyd_warshall st (Dense a) directed overwrite =
     (if \<not> is_square (st ! buffer a)
      then Inl (ValueError ''dist_matrix must have shape (N, N)'')
      else if overwrite \<and> c_ordered a \<and> float64 a
      then Inr (st[buffer a := cdef_floyd_warshall (st ! buffer a) directed], buffer a)
      else Inr (st @ [cdef_floyd_warshall (st ! buffer a) directed], length st))"
  by (simp add: floyd_warshall_def np_asarray_def np_array_def alloc_def)

text \<open>
  C9: on a dense argument, \<open>floyd_warshall\<close> with \<open>overwrite = False\<close> leaves the
  caller's array as it was and returns a fresh array that holds the result. With
  \<open>overwrite = True\<close> it writes the result into the caller's array only when that
  array is C-ordered with dtype float64; otherwise it again works on a fresh copy. A
  sparse argument is always converted to a fresh array. The store \<open>st\<close> holds the
  arrays that exist at the call and \<open>buffer a\<close> is the caller's.
\<close>

theorem overwrite_only_in_place_on_c_ordered_float64:
  assumes "buffer a < length st"
  shows "(\<not> overwrite \<or> \<not> c_ordered a \<or> \<not> float64 a \<longrightarrow>
            (\<forall>st' g. floyd_warshall st (Dense a) directed overwrite = Inr (st', g) \<longrightarrow>
               st' ! buffer a = st ! buffer a \<and> g = length st \<and> take (length st) st' = st
               \<and> st' ! g = cdef_floyd_warshall (st ! buffer a) directed))
       \<and> (overwrite \<and> c_ordered a \<and> float64 a \<longrightarrow>
            (\<forall>st' g. floyd_warshall st (Dense a) directed overwrite = Inr (st', g) \<longrightarrow>
               g = buffer a
               \<and> st' = st[buffer a := cdef_floyd_warshall (st ! buffer a) directed]))
       \<and> (is_square (st ! buffer a) \<longrightarrow>
            (\<exists>st' g. floyd_warshall st (Dense a) directed overwrite = Inr (st', g)))
       \<and> (\<forall>c st' g. floyd_warshall st (Sparse c) directed overwrite = Inr (st', g) \<longrightarrow>
            g = length st \<and> take (length st) st' = st)"
proof -
  have sparse: "\<forall>c st' g. floyd_warshall st (Sparse c) directed overwrite = Inr (st', g) \<longrightarrow>
            g = length st \<and> take (length st) st' = st"
    by (auto simp add: floyd_warshall_def alloc_def split: if_splits)
  have dense: "(\<not> overwrite \<or> \<not> c_ordered a \<or> \<not> float64 a \<longrightarrow>
            (\<forall>st' g. floyd_warshall st (Dense a) directed overwrite = Inr (st', g) \<longrightarrow>
               st' ! buffer a = st ! buffer a \<and> g = length st \<and> take (length st) st' = st
               \<and> st' ! g = cdef_floyd_warshall (st ! buffer a) directed))
       \<and> (overwrite \<and> c_ordered a \<and> float64 a \<longrightarrow>
            (\<forall>st' g. floyd_warshall st (Dense a) directed overwrite = Inr (st', g) \<longrightarrow>
               g = buffer a
               \<and> st' = st[buffer a := cdef_floyd_warshall (st ! buffer a) directed]))
       \<and> (is_square (st ! buffer a) \<longrightarrow>
            (\<exists>st' g. floyd_warshall st (Dense a) directed overwrite = Inr (st', g)))"
    using assms
    by (auto simp add: floyd_warshall_dense nth_append split: if_splits)
  from dense sparse show ?thesis by blast
qed

theorem overwrite_only_in_place_on_c_ordered_float64_witness:
  "buffer dense_input < length [detour_graph]
   \<and> floyd_warshall [detour_graph] (Dense dense_input) True False =
       Inr ([detour_graph, cdef_floyd_warshall detour_graph True], 1)
   \<and> floyd_warshall [detour_graph] (Dense fortran_input) True True =
       Inr ([detour_graph, cdef_floyd_warshall detour_graph True], 1)
   \<and> floyd_warshall [detour_graph] (Dense dense_input) True True =
       Inr ([cdef_floyd_warshall detour_graph True], 0)"
proof -
  have b: "buffer dense_input < length [detour_graph]"
    by (simp add: dense_input_def)
  have sq: "is_square detour_graph"
    by (simp add: is_square_def detour_graph_def)
  note t = overwrite_only_in_place_on_c_ordered_float64 [OF b, of _ True]
  have 1: "floyd_warshall [detour_graph] (Dense dense_input) True False =
       Inr ([detour_graph, cdef_floyd_warshall detour_graph True], 1)"
    by (simp add: floyd_warshall_dense sq dense_input_def)
  have 2: "floyd_warshall [detour_graph] (Dense fortran_input) True True =
       Inr ([detour_graph, cdef_floyd_warshall detour_graph True], 1)"
    by (simp add: floyd_warshall_dense sq fortran_input_def)
  from t [of True] sq obtain st' g where
    e: "floyd_warshall [detour_graph] (Dense dense_input) True True = Inr (st', g)"
    by (auto simp: dense_input_def)
  with t [of True] have "g = 0 \<and> st' = [cdef_floyd_warshall detour_graph True]"
    by (simp add: dense_input_def)
  with e b 1 2 show ?thesis by simp
qed

subsection \<open>C4: which root becomes the child in a merge\<close>


lemma parent_remove_self: "parent (remove s n n) = None"
  by (simp add: remove_def Let_def split: option.splits)










subsection \<open>C10: the nodes after a search\<close>

text \<open>
  C10: when a search returns (the heap has emptied), every node of the array has null
  \<open>parent\<close>, \<open>children\<close>, \<open>left_sibling\<close> and \<open>right_sibling\<close> and rank 0, and
  still carries its own position as index; the abbreviated reset of the undirected search,
  applied to these nodes, gives the array that the full initialisation gives. For the
  directed search this holds from any content of the array, since it initialises every
  node; for the undirected search from nodes that are in this condition, as they are
  after the initialisation in \<open>_dijkstra\<close> and after each earlier search. The arrays of
  the graph are well-formed compressed rows over \<open>N\<close> nodes, \<open>i_node\<close> is one of the
  nodes and the row \<open>i_node\<close> of the result has \<open>N\<close> entries. A search that does not
  return has left the table \<open>roots_by_rank\<close> of 100 entries in \<open>link\<close>; this needs
  more than 100 nodes, so with at most 100 nodes every search returns.
\<close>

theorem search_leaves_nodes_unlinked:
  assumes "csr_ok N neighbors1 distances1 indptr1"
    and "csr_ok N neighbors2 distances2 indptr2"
    and "i_node < N" "i_node < length graph" "length (graph ! i_node) = N"
    and "clean N s" "min_node heap = None"
  shows "((\<exists>s' heap' graph'.
             dijkstra_directed_one_row i_node neighbors1 distances1 indptr1 N
               ((s0, heap0), graph) = Some ((s', heap'), graph')
             \<and> min_node heap' = None \<and> clean N s'
             \<and> reset_nodes N s' = initialize_nodes N s')
          \<or> (100 < N
              \<and> dijkstra_directed_one_row i_node neighbors1 distances1 indptr1 N
                  ((s0, heap0), graph) = None))
       \<and> ((\<exists>s' heap' graph'.
             dijkstra_one_row i_node neighbors1 distances1 indptr1
               neighbors2 distances2 indptr2 N ((s, heap), graph)
               = Some ((s', heap'), graph')
             \<and> min_node heap' = None \<and> clean N s'
             \<and> reset_nodes N s' = initialize_nodes N s')
          \<or> (100 < N
              \<and> dijkstra_one_row i_node neighbors1 distances1 indptr1
                  neighbors2 distances2 indptr2 N ((s, heap), graph) = None))"
proof
  from dijkstra_directed_one_row_ok
         [OF assms(1) closed_under_UNIV assms(3) UNIV_I assms(4,5), of s0 heap0]
  show "(\<exists>s' heap' graph'.
             dijkstra_directed_one_row i_node neighbors1 distances1 indptr1 N
               ((s0, heap0), graph) = Some ((s', heap'), graph')
             \<and> min_node heap' = None \<and> clean N s'
             \<and> reset_nodes N s' = initialize_nodes N s')
          \<or> (100 < N
              \<and> dijkstra_directed_one_row i_node neighbors1 distances1 indptr1 N
                  ((s0, heap0), graph) = None)"
    by (cases rule: yields_cases) (auto dest: clean_reset_is_initialize)
next
  from dijkstra_one_row_ok
         [OF assms(1) closed_under_UNIV assms(2) closed_under_UNIV assms(3) UNIV_I
             assms(4-7)]
  show "(\<exists>s' heap' graph'.
             dijkstra_one_row i_node neighbors1 distances1 indptr1
               neighbors2 distances2 indptr2 N ((s, heap), graph)
               = Some ((s', heap'), graph')
             \<and> min_node heap' = None \<and> clean N s'
             \<and> reset_nodes N s' = initialize_nodes N s')
          \<or> (100 < N
              \<and> dijkstra_one_row i_node neighbors1 distances1 indptr1
                  neighbors2 distances2 indptr2 N ((s, heap), graph) = None)"
    by (cases rule: yields_cases) (auto dest: clean_reset_is_initialize)
qed

text \<open>
  The searches from node 0 on \<open>star\<close>, whose node 0 has an edge to each of the nodes
  1 to 4. When node 0 has been scanned the heap holds the four other nodes; the second
  \<open>remove_min\<close> returns node 1 and links node 3 below node 2, which gets rank 1. Both
  searches return with every node unlinked again.
\<close>

theorem search_leaves_nodes_unlinked_witness:
  "(\<exists>s' heap' graph'.
      dijkstra_directed_one_row 0 (csr_indices star) (csr_data star) (csr_indptr star) 5
        ((malloc_nodes, local_heap), replicate 5 (replicate 5 0)) = Some ((s', heap'), graph')
      \<and> min_node heap' = None \<and> clean 5 s'
      \<and> reset_nodes 5 s' = initialize_nodes 5 s')
   \<and> (\<exists>s' heap' graph'.
      dijkstra_one_row 0 (csr_indices star) (csr_data star) (csr_indptr star)
        (csr_indices star_transposed) (csr_data star_transposed) (csr_indptr star_transposed) 5
        ((initialize_nodes 5 malloc_nodes, local_heap), replicate 5 (replicate 5 0))
        = Some ((s', heap'), graph')
      \<and> min_node heap' = None \<and> clean 5 s'
      \<and> reset_nodes 5 s' = initialize_nodes 5 s')
   \<and> do {
       m1 \<leftarrow> insert_node (reset_nodes 5 (initialize_nodes 5 malloc_nodes), local_heap) 0;
       (v, (s1, heap1)) \<leftarrow> remove_min m1;
       m2 \<leftarrow> scan_row (csr_indices star) (csr_data star) (csr_indptr star) 5 v
               (s1(v := (s1 v)\<lparr>state := 2\<rparr>), heap1);
       m3 \<leftarrow> scan_row (csr_indices star_transposed) (csr_data star_transposed)
               (csr_indptr star_transposed) 5 v m2;
       (w, m4) \<leftarrow> remove_min m3;
       Some (v, w, parent (fst m4 3), rank (fst m4 2))
     } = Some (0, 1, Some 2, 1)"
proof -
  have csr: "csr_ok 5 (csr_indices star) (csr_data star) (csr_indptr star)"
    "csr_ok 5 (csr_indices star_transposed) (csr_data star_transposed)
       (csr_indptr star_transposed)"
    by code_simp+
  have g: "(0::nat) < 5" "0 < length (replicate 5 (replicate 5 (0::DTYPE_t)))"
    "length (replicate 5 (replicate 5 (0::DTYPE_t)) ! 0) = 5"
    by simp_all
  have h: "min_node local_heap = None" by (simp add: local_heap_def)
  have mid: "do {
       m1 \<leftarrow> insert_node (reset_nodes 5 (initialize_nodes 5 malloc_nodes), local_heap) 0;
       (v, (s1, heap1)) \<leftarrow> remove_min m1;
       m2 \<leftarrow> scan_row (csr_indices star) (csr_data star) (csr_indptr star) 5 v
               (s1(v := (s1 v)\<lparr>state := 2\<rparr>), heap1);
       m3 \<leftarrow> scan_row (csr_indices star_transposed) (csr_data star_transposed)
               (csr_indptr star_transposed) 5 v m2;
       (w, m4) \<leftarrow> remove_min m3;
       Some (v, w, parent (fst m4 3), rank (fst m4 2))
     } = Some (0, 1, Some 2, 1)"
    by (simp add: heap_rules search_rules star_def star_transposed_def upt_conv_Cons
             cong: bind_weak_cong)
  from search_leaves_nodes_unlinked
         [OF csr g clean_initialize_nodes h, of malloc_nodes local_heap malloc_nodes] mid
  show ?thesis by simp
qed

subsection \<open>C8: entries of unreachable nodes\<close>



end
